theory Spec2Isabelle
  imports Main "HOL-Library.Sublist"
begin

section \<open>The rate limiter of \<^verbatim>\<open>rateLimit.ts\<close> as a state machine\<close>

text \<open>
  \<^verbatim>\<open>pRateLimit\<close> closes over four mutable things: the flag \<^verbatim>\<open>isClosed\<close>, the
  queue of runner closures, the handle \<^verbatim>\<open>timerId\<close> of the fallback poll timer, and the
  quota manager. Every call of \<^verbatim>\<open>limiter\<close> adds a closure of its own, holding the
  caller's promise and the local \<^verbatim>\<open>timerId\<close> of the deadline timer. The embedding
  keeps all of it in one record and passes it through every function.

  JavaScript runs one callback at a time. The callbacks of this file are: a call of
  \<^verbatim>\<open>limiter\<close>, a call of \<^verbatim>\<open>cleanup\<close>, the firing of a timer, the handler
  that runs when the promise returned by the task factory settles
  (\<^verbatim>\<open>.then(val => ...)\<close> or \<^verbatim>\<open>.catch(err => ...)\<close>), and the last handler of
  the chain (\<^verbatim>\<open>.then(() => next())\<close>), which is a later microtask. Each is one
  event of the model, and a run of the program is a list of events. Which event comes
  next is left open (a timer may fire at any moment while it is pending), so a property
  of all event lists holds for every real schedule.

  The task factory \<^verbatim>\<open>fn\<close> is opaque: calling it is recorded, it returns a promise
  (its type is \<^verbatim>\<open>() => Promise<T>\<close>), and that promise settles through a later event,
  if it settles at all. The factory is taken to return without throwing and without
  calling back into the same limiter before it returns; the methods of the quota manager
  are taken to return without throwing.
\<close>

subsection \<open>Values\<close>

text \<open>How the promise returned by the task factory settles.\<close>

datatype ('v, 'e) outcome = Fulfilled 'v | Failed 'e

text \<open>
  What the caller's promise can be rejected with: the two errors built by the limiter
  (with their messages), or whatever the task's own promise was rejected with.
\<close>

datatype 'e rejection =
    AlreadyClosedError string
  | RateLimitTimeoutError string
  | TaskError 'e

datatype ('v, 'e) promise = Pending | Resolved 'v | Rejected "'e rejection"

text \<open>\<^verbatim>\<open>new AlreadyClosedError('Limiter has been closed and cannot be used')\<close> and
  \<^verbatim>\<open>new RateLimitTimeoutError('queue maxDelay timeout exceeded')\<close>.\<close>

definition closedError :: "'e rejection" where
  "closedError = AlreadyClosedError ''Limiter has been closed and cannot be used''"

definition timeoutError :: "'e rejection" where
  "timeoutError = RateLimitTimeoutError ''queue maxDelay timeout exceeded''"

text \<open>The two callbacks passed to \<^verbatim>\<open>setTimeout\<close>: the poll of \<^verbatim>\<open>next\<close> and the
  deadline of the task with the given number.\<close>

datatype callback = FallbackPoll | DeadlineOf nat

text \<open>
  Where the promise chain built by \<^verbatim>\<open>run\<close> stands: \<^verbatim>\<open>fn\<close> not called yet;
  called and its promise not settled; settled, with \<^verbatim>\<open>.then(() => next())\<close> still to
  run; all handlers done.
\<close>

datatype phase = NotStarted | Running | Settling | Finished

text \<open>
  The calls a run makes, in order, kept in the state for the properties that count or
  order them: \<^verbatim>\<open>start()\<close> with its result, \<^verbatim>\<open>end()\<close>, \<^verbatim>\<open>close()\<close>,
  \<^verbatim>\<open>queue.push(run)\<close>, \<^verbatim>\<open>queue.shift()()\<close> (the runner is taken and called),
  \<^verbatim>\<open>fn()\<close>, \<^verbatim>\<open>resolve\<close>, \<^verbatim>\<open>reject\<close> (also the rejection by a throwing
  executor), \<^verbatim>\<open>setTimeout\<close> with the handle it returns, \<^verbatim>\<open>clearTimeout\<close>, and the
  entry into \<^verbatim>\<open>next\<close>.
\<close>

datatype ('v, 'e) action =
    QStart bool
  | QEnd
  | QClose
  | Push nat
  | Shift nat
  | FnCall nat
  | Resolve nat 'v
  | Reject nat "'e rejection"
  | SetTimeout nat callback int
  | ClearTimeout nat
  | Next

subsection \<open>The quota manager\<close>

text \<open>
  Modelled from the spec: the class \<^verbatim>\<open>QuotaManager\<close> (\<^verbatim>\<open>./quota/quotaManager\<close>) is
  not among the sources. The limiter uses \<^verbatim>\<open>start()\<close>, \<^verbatim>\<open>end()\<close>, \<^verbatim>\<open>close()\<close>,
  \<^verbatim>\<open>activeCount\<close> and \<^verbatim>\<open>maxDelay\<close>; they are parameters here, over any type
  \<open>'q\<close> of manager states, so that what is proved holds for every manager.
  \<^verbatim>\<open>maxDelay\<close> is "fixed at construction" and "0 or absent meaning no deadline".
\<close>

record 'q quotaManager =
  qm_start :: "'q \<Rightarrow> bool \<times> 'q"
  qm_end :: "'q \<Rightarrow> 'q"
  qm_close :: "'q \<Rightarrow> 'q"
  qm_activeCount :: "'q \<Rightarrow> int"
  qm_maxDelay :: "int option"

text \<open>\<^verbatim>\<open>if (quotaManager.maxDelay)\<close>: \<^verbatim>\<open>undefined\<close> and \<^verbatim>\<open>0\<close> are falsy.\<close>

definition truthy :: "int option \<Rightarrow> bool" where
  "truthy d = (case d of None \<Rightarrow> False | Some n \<Rightarrow> n \<noteq> 0)"

text \<open>
  Modelled from the spec: a manager that limits concurrency only. \<^verbatim>\<open>start()\<close>
  "attempts to admit one operation; if admitted, increments activeCount and returns
  true, else returns false with no state change", \<^verbatim>\<open>end()\<close> "decrements
  activeCount", and after \<^verbatim>\<open>close()\<close> "start() must return false". It serves as the
  concrete manager of the examples.
\<close>

record concurrencyQuota =
  cq_active :: int
  cq_limit :: int
  cq_closed :: bool

definition cq_start :: "concurrencyQuota \<Rightarrow> bool \<times> concurrencyQuota" where
  "cq_start q =
     (if cq_closed q \<or> cq_limit q \<le> cq_active q then (False, q)
      else (True, q\<lparr>cq_active := cq_active q + 1\<rparr>))"

definition cq_end :: "concurrencyQuota \<Rightarrow> concurrencyQuota" where
  "cq_end q = q\<lparr>cq_active := cq_active q - 1\<rparr>"

definition cq_close :: "concurrencyQuota \<Rightarrow> concurrencyQuota" where
  "cq_close q = q\<lparr>cq_closed := True\<rparr>"

definition concurrencyManager :: "int option \<Rightarrow> concurrencyQuota quotaManager" where
  "concurrencyManager d =
     \<lparr>qm_start = cq_start, qm_end = cq_end, qm_close = cq_close,
      qm_activeCount = cq_active, qm_maxDelay = d\<rparr>"

definition newQuota :: "int \<Rightarrow> concurrencyQuota" where
  "newQuota n = \<lparr>cq_active = 0, cq_limit = n, cq_closed = False\<rparr>"

subsection \<open>The state\<close>

text \<open>The closure of one call of \<^verbatim>\<open>limiter\<close>: its local \<^verbatim>\<open>timerId\<close>, the promise
  returned to the caller, and the promise chain of \<^verbatim>\<open>run\<close>.\<close>

record ('v, 'e) task =
  t_timerId :: "nat option"
  t_promise :: "('v, 'e) promise"
  t_phase :: phase

text \<open>
  The closure of \<^verbatim>\<open>pRateLimit\<close>. A runner in the queue is the number of its task.
  \<open>timers\<close> is the timer table of the runtime: the pending timeouts with their
  handles; \<open>nextHandle\<close> is the next handle \<^verbatim>\<open>setTimeout\<close> returns.
\<close>

record ('q, 'v, 'e) limiterState =
  qm :: 'q
  isClosed :: bool
  queue :: "nat list"
  timerId :: "nat option"
  tasks :: "('v, 'e) task list"
  timers :: "(nat \<times> callback) list"
  nextHandle :: nat
  trace :: "('v, 'e) action list"

definition pRateLimit :: "'q \<Rightarrow> ('q, 'v, 'e) limiterState" where
  "pRateLimit q =
     \<lparr>qm = q, isClosed = False, queue = [], timerId = None, tasks = [],
      timers = [], nextHandle = 0, trace = []\<rparr>"

subsection \<open>Runtime primitives\<close>

definition emit :: "('v, 'e) action \<Rightarrow> ('q, 'v, 'e) limiterState \<Rightarrow> ('q, 'v, 'e) limiterState" where
  "emit a s = s\<lparr>trace := trace s @ [a]\<rparr>"

definition updTask ::
  "nat \<Rightarrow> (('v, 'e) task \<Rightarrow> ('v, 'e) task) \<Rightarrow> ('q, 'v, 'e) limiterState \<Rightarrow> ('q, 'v, 'e) limiterState" where
  "updTask i f s = s\<lparr>tasks := (tasks s)[i := f (tasks s ! i)]\<rparr>"

definition dropTimer :: "nat \<Rightarrow> (nat \<times> callback) list \<Rightarrow> (nat \<times> callback) list" where
  "dropTimer h ts = filter (\<lambda>t. fst t \<noteq> h) ts"

text \<open>\<^verbatim>\<open>setTimeout(cb, d)\<close> returns a fresh handle and makes the timer pending.\<close>

definition setTimeout ::
  "callback \<Rightarrow> int \<Rightarrow> ('q, 'v, 'e) limiterState \<Rightarrow> nat \<times> ('q, 'v, 'e) limiterState" where
  "setTimeout cb d s =
     (nextHandle s,
      emit (SetTimeout (nextHandle s) cb d)
        (s\<lparr>timers := timers s @ [(nextHandle s, cb)], nextHandle := Suc (nextHandle s)\<rparr>))"

definition clearTimeout :: "nat \<Rightarrow> ('q, 'v, 'e) limiterState \<Rightarrow> ('q, 'v, 'e) limiterState" where
  "clearTimeout h s = emit (ClearTimeout h) (s\<lparr>timers := dropTimer h (timers s)\<rparr>)"

text \<open>\<^verbatim>\<open>resolve\<close> and \<^verbatim>\<open>reject\<close> of a promise: only the first call settles it.\<close>

definition settle :: "('v, 'e) promise \<Rightarrow> ('v, 'e) promise \<Rightarrow> ('v, 'e) promise" where
  "settle new old = (case old of Pending \<Rightarrow> new | _ \<Rightarrow> old)"

definition resolve :: "nat \<Rightarrow> 'v \<Rightarrow> ('q, 'v, 'e) limiterState \<Rightarrow> ('q, 'v, 'e) limiterState" where
  "resolve i v s =
     emit (Resolve i v) (updTask i (\<lambda>t. t\<lparr>t_promise := settle (Resolved v) (t_promise t)\<rparr>) s)"

definition reject :: "nat \<Rightarrow> 'e rejection \<Rightarrow> ('q, 'v, 'e) limiterState \<Rightarrow> ('q, 'v, 'e) limiterState" where
  "reject i r s =
     emit (Reject i r) (updTask i (\<lambda>t. t\<lparr>t_promise := settle (Rejected r) (t_promise t)\<rparr>) s)"

subsection \<open>The functions of \<^verbatim>\<open>rateLimit.ts\<close>\<close>

text \<open>
  \<^verbatim>\<open>
  const cleanupFn = async () => {
    if (isClosed) return;
    quotaManager.close();
    isClosed = true;
  };
  \<close>
\<close>

definition cleanupFn ::
  "'q quotaManager \<Rightarrow> ('q, 'v, 'e) limiterState \<Rightarrow> ('q, 'v, 'e) limiterState" where
  "cleanupFn M s =
     (if isClosed s then s
      else (emit QClose (s\<lparr>qm := qm_close M (qm s)\<rparr>))\<lparr>isClosed := True\<rparr>)"

text \<open>\<^verbatim>\<open>fn()\<close> with its three handlers attached: the factory is called, the chain waits.\<close>

definition callFn :: "nat \<Rightarrow> ('q, 'v, 'e) limiterState \<Rightarrow> ('q, 'v, 'e) limiterState" where
  "callFn i s = updTask i (\<lambda>t. t\<lparr>t_phase := Running\<rparr>) (emit (FnCall i) s)"

text \<open>
  \<^verbatim>\<open>
  const run = () => {
    if (quotaManager.maxDelay) {
      if (timerId) {
        clearTimeout(timerId);
      } else {
        // timeout already fired
        return;
      }
    }
    fn().then(...).catch(...).then(...);
  };
  \<close>
  \<^verbatim>\<open>clearTimeout\<close> leaves the variable \<^verbatim>\<open>timerId\<close> as it is.
\<close>

definition run ::
  "'q quotaManager \<Rightarrow> nat \<Rightarrow> ('q, 'v, 'e) limiterState \<Rightarrow> ('q, 'v, 'e) limiterState" where
  "run M i s =
     (if truthy (qm_maxDelay M) then
        (case t_timerId (tasks s ! i) of
           Some h \<Rightarrow> callFn i (clearTimeout h s)
         | None \<Rightarrow> s)
      else callFn i s)"

text \<open>
  The loop of \<^verbatim>\<open>next\<close>:
  \<^verbatim>\<open>
  while (!isClosed && queue.length && quotaManager.start()) {
    queue.shift()();
  }
  \<close>
  \<^verbatim>\<open>&&\<close> evaluates from the left and stops at the first falsy operand:
  \<^verbatim>\<open>start()\<close> is called only when the limiter is open and the queue is not empty.
  \<open>startQ\<close> is the call \<^verbatim>\<open>quotaManager.start()\<close>, \<open>shiftRun\<close> the body
  \<^verbatim>\<open>queue.shift()()\<close>, which takes the head runner and calls it at once.
\<close>

definition startQ ::
  "'q quotaManager \<Rightarrow> ('q, 'v, 'e) limiterState \<Rightarrow> bool \<times> ('q, 'v, 'e) limiterState" where
  "startQ M s =
     (case qm_start M (qm s) of (ok, q') \<Rightarrow> (ok, emit (QStart ok) (s\<lparr>qm := q'\<rparr>)))"

definition shiftRun ::
  "'q quotaManager \<Rightarrow> ('q, 'v, 'e) limiterState \<Rightarrow> ('q, 'v, 'e) limiterState" where
  "shiftRun M s =
     (case queue s of
        [] \<Rightarrow> s
      | i # rest \<Rightarrow> run M i (emit (Shift i) (s\<lparr>queue := rest\<rparr>)))"

function drain ::
  "'q quotaManager \<Rightarrow> ('q, 'v, 'e) limiterState \<Rightarrow> ('q, 'v, 'e) limiterState" where
  "drain M s =
     (if \<not> isClosed s \<and> queue s \<noteq> [] then
        (case startQ M s of
           (ok, s1) \<Rightarrow> if ok then drain M (shiftRun M s1) else s1)
      else s)"
  by pat_completeness auto
termination
  by (relation "measure (\<lambda>(M, s). length (queue s))")
     (auto simp: startQ_def shiftRun_def run_def callFn_def clearTimeout_def updTask_def emit_def
        split: prod.splits list.splits option.splits)

declare drain.simps [simp del]

text \<open>
  The statement after the loop:
  \<^verbatim>\<open>
  if (queue.length && !quotaManager.activeCount && !timerId) {
    timerId = setTimeout(() => { timerId = null; next(); }, 100);
  }
  \<close>
\<close>

definition armFallback ::
  "'q quotaManager \<Rightarrow> ('q, 'v, 'e) limiterState \<Rightarrow> ('q, 'v, 'e) limiterState" where
  "armFallback M s =
     (if queue s \<noteq> [] \<and> qm_activeCount M (qm s) = 0 \<and> timerId s = None then
        (case setTimeout FallbackPoll 100 s of (h, s') \<Rightarrow> s'\<lparr>timerId := Some h\<rparr>)
      else s)"

text \<open>\<^verbatim>\<open>const next = () => { while (...) { ... }  if (...) { ... } };\<close>\<close>

definition nextFn ::
  "'q quotaManager \<Rightarrow> ('q, 'v, 'e) limiterState \<Rightarrow> ('q, 'v, 'e) limiterState" where
  "nextFn M s = armFallback M (drain M (emit Next s))"

text \<open>The callback of the fallback timer: \<^verbatim>\<open>timerId = null; next();\<close>\<close>

definition fallbackFired ::
  "'q quotaManager \<Rightarrow> ('q, 'v, 'e) limiterState \<Rightarrow> ('q, 'v, 'e) limiterState" where
  "fallbackFired M s = nextFn M (s\<lparr>timerId := None\<rparr>)"

text \<open>
  The callback of the deadline timer of task \<open>i\<close>:
  \<^verbatim>\<open>timerId = null; reject(new RateLimitTimeoutError('queue maxDelay timeout exceeded')); next();\<close>
\<close>

definition deadlineFired ::
  "'q quotaManager \<Rightarrow> nat \<Rightarrow> ('q, 'v, 'e) limiterState \<Rightarrow> ('q, 'v, 'e) limiterState" where
  "deadlineFired M i s =
     nextFn M
       (reject i timeoutError
          (updTask i (\<lambda>t. t\<lparr>t_timerId := None\<rparr>) s))"

text \<open>
  The handler that runs when the promise of \<^verbatim>\<open>fn()\<close> settles:
  \<^verbatim>\<open>.then((val) => { quotaManager.end(); resolve(val); })\<close> on fulfilment,
  \<^verbatim>\<open>.catch((err) => { quotaManager.end(); reject(err); })\<close> on rejection. The last
  handler of the chain is then queued.
\<close>

definition settled ::
  "'q quotaManager \<Rightarrow> nat \<Rightarrow> ('v, 'e) outcome \<Rightarrow> ('q, 'v, 'e) limiterState \<Rightarrow> ('q, 'v, 'e) limiterState" where
  "settled M i out s =
     (let s1 = emit QEnd (s\<lparr>qm := qm_end M (qm s)\<rparr>);
          s2 = (case out of Fulfilled v \<Rightarrow> resolve i v s1 | Failed e \<Rightarrow> reject i (TaskError e) s1)
      in updTask i (\<lambda>t. t\<lparr>t_phase := Settling\<rparr>) s2)"

text \<open>The last handler of the chain: \<^verbatim>\<open>.then(() => { next(); })\<close>\<close>

definition continued ::
  "'q quotaManager \<Rightarrow> nat \<Rightarrow> ('q, 'v, 'e) limiterState \<Rightarrow> ('q, 'v, 'e) limiterState" where
  "continued M i s = nextFn M (updTask i (\<lambda>t. t\<lparr>t_phase := Finished\<rparr>) s)"

text \<open>
  \<^verbatim>\<open>
  const limiter = (fn) => new Promise((resolve, reject) => {
    if (isClosed) throw new AlreadyClosedError('Limiter has been closed and cannot be used');
    let timerId = null;
    if (quotaManager.maxDelay) { timerId = setTimeout(..., quotaManager.maxDelay); }
    const run = ...;
    queue.push(run);
    next();
  });
  \<close>
  The new task gets the next free number. An exception thrown by the executor of
  \<^verbatim>\<open>new Promise\<close> rejects the promise with it.
\<close>

definition newTask :: "('v, 'e) task" where
  "newTask = \<lparr>t_timerId = None, t_promise = Pending, t_phase = NotStarted\<rparr>"

definition limiter ::
  "'q quotaManager \<Rightarrow> ('q, 'v, 'e) limiterState \<Rightarrow> ('q, 'v, 'e) limiterState" where
  "limiter M s =
     (let i = length (tasks s);
          s0 = s\<lparr>tasks := tasks s @ [newTask]\<rparr>
      in if isClosed s0 then
           reject i closedError s0
         else
           let s1 = (if truthy (qm_maxDelay M) then
                       (case setTimeout (DeadlineOf i) (the (qm_maxDelay M)) s0 of
                          (h, s') \<Rightarrow> updTask i (\<lambda>t. t\<lparr>t_timerId := Some h\<rparr>) s')
                     else s0)
           in nextFn M (emit (Push i) (s1\<lparr>queue := queue s1 @ [i]\<rparr>)))"

subsection \<open>Events and runs\<close>

datatype ('v, 'e) event =
    Submit
  | Cleanup
  | Fire nat
  | Settle nat "('v, 'e) outcome"
  | Continue nat

text \<open>
  One event. A timer fires only while it is pending, and leaves the timer table when
  it does; the settlement handler runs only for a task whose factory was called and
  has not settled; the last handler runs only once, after the settlement handler.
  An event that cannot happen gives \<open>None\<close>.
\<close>

fun step ::
  "'q quotaManager \<Rightarrow> ('v, 'e) event \<Rightarrow> ('q, 'v, 'e) limiterState \<Rightarrow> ('q, 'v, 'e) limiterState option" where
  "step M Submit s = Some (limiter M s)"
| "step M Cleanup s = Some (cleanupFn M s)"
| "step M (Fire h) s =
     (case map_of (timers s) h of
        None \<Rightarrow> None
      | Some FallbackPoll \<Rightarrow> Some (fallbackFired M (s\<lparr>timers := dropTimer h (timers s)\<rparr>))
      | Some (DeadlineOf i) \<Rightarrow> Some (deadlineFired M i (s\<lparr>timers := dropTimer h (timers s)\<rparr>)))"
| "step M (Settle i out) s =
     (if i < length (tasks s) \<and> t_phase (tasks s ! i) = Running
      then Some (settled M i out s) else None)"
| "step M (Continue i) s =
     (if i < length (tasks s) \<and> t_phase (tasks s ! i) = Settling
      then Some (continued M i s) else None)"

primrec exec ::
  "'q quotaManager \<Rightarrow> ('v, 'e) event list \<Rightarrow> ('q, 'v, 'e) limiterState \<Rightarrow> ('q, 'v, 'e) limiterState option" where
  "exec M [] s = Some s"
| "exec M (e # es) s = (case step M e s of None \<Rightarrow> None | Some s' \<Rightarrow> exec M es s')"

section \<open>Vocabulary of the properties\<close>

subsection \<open>Reading the trace\<close>

text \<open>The tasks pushed on the queue, the runners taken from it, the factories called and the
  results of \<^verbatim>\<open>start()\<close>, each in the order of the trace; the calls of \<^verbatim>\<open>resolve\<close>
  and \<^verbatim>\<open>reject\<close> made for one task.\<close>

fun pushOf :: "('v, 'e) action \<Rightarrow> nat list" where
  "pushOf (Push i) = [i]"
| "pushOf _ = []"

fun shiftOf :: "('v, 'e) action \<Rightarrow> nat list" where
  "shiftOf (Shift i) = [i]"
| "shiftOf _ = []"

fun callOf :: "('v, 'e) action \<Rightarrow> nat list" where
  "callOf (FnCall i) = [i]"
| "callOf _ = []"

fun startOf :: "('v, 'e) action \<Rightarrow> bool list" where
  "startOf (QStart b) = [b]"
| "startOf _ = []"

fun settlesTask :: "nat \<Rightarrow> ('v, 'e) action \<Rightarrow> bool" where
  "settlesTask i (Resolve j v) = (j = i)"
| "settlesTask i (Reject j r) = (j = i)"
| "settlesTask i _ = False"

definition pushes :: "('v, 'e) action list \<Rightarrow> nat list" where
  "pushes tr = concat (map pushOf tr)"

definition shifts :: "('v, 'e) action list \<Rightarrow> nat list" where
  "shifts tr = concat (map shiftOf tr)"

definition fnCalls :: "('v, 'e) action list \<Rightarrow> nat list" where
  "fnCalls tr = concat (map callOf tr)"

definition starts :: "('v, 'e) action list \<Rightarrow> bool list" where
  "starts tr = concat (map startOf tr)"

definition settles :: "nat \<Rightarrow> ('v, 'e) action list \<Rightarrow> ('v, 'e) action list" where
  "settles i tr = filter (settlesTask i) tr"

text \<open>The one call that settled a promise, read off the promise.\<close>

definition settledBy :: "nat \<Rightarrow> ('v, 'e) promise \<Rightarrow> ('v, 'e) action list" where
  "settledBy i p = (case p of Pending \<Rightarrow> [] | Resolved v \<Rightarrow> [Resolve i v] | Rejected r \<Rightarrow> [Reject i r])"

text \<open>What the settlement handler calls for an outcome, and what it leaves in the caller's
  promise: \<^verbatim>\<open>resolve(val)\<close> or \<^verbatim>\<open>reject(err)\<close>.\<close>

definition settleAction :: "nat \<Rightarrow> ('v, 'e) outcome \<Rightarrow> ('v, 'e) action" where
  "settleAction i out = (case out of Fulfilled v \<Rightarrow> Resolve i v | Failed e \<Rightarrow> Reject i (TaskError e))"

definition settledPromise :: "('v, 'e) outcome \<Rightarrow> ('v, 'e) promise" where
  "settledPromise out = (case out of Fulfilled v \<Rightarrow> Resolved v | Failed e \<Rightarrow> Rejected (TaskError e))"




subsection \<open>Intermediate states\<close>

text \<open>The state of an open limiter at the call of \<^verbatim>\<open>next()\<close> in \<^verbatim>\<open>limiter\<close>: the
  promise is created, the deadline timer (if \<^verbatim>\<open>maxDelay\<close> is set) is armed and the
  runner is pushed.\<close>

definition enqueued :: "'q quotaManager \<Rightarrow> ('q, 'v, 'e) limiterState \<Rightarrow> ('q, 'v, 'e) limiterState" where
  "enqueued M s =
     (if truthy (qm_maxDelay M) then
        s\<lparr>timers := timers s @ [(nextHandle s, DeadlineOf (length (tasks s)))],
          nextHandle := Suc (nextHandle s),
          tasks := tasks s @ [newTask\<lparr>t_timerId := Some (nextHandle s)\<rparr>],
          queue := queue s @ [length (tasks s)],
          trace := trace s @ [SetTimeout (nextHandle s) (DeadlineOf (length (tasks s))) (the (qm_maxDelay M)),
                              Push (length (tasks s))]\<rparr>
      else
        s\<lparr>tasks := tasks s @ [newTask], queue := queue s @ [length (tasks s)],
          trace := trace s @ [Push (length (tasks s))]\<rparr>)"

text \<open>The pending timers whose callback is the poll of \<^verbatim>\<open>next\<close>.\<close>

definition fallbackTimers :: "('q, 'v, 'e) limiterState \<Rightarrow> (nat \<times> callback) list" where
  "fallbackTimers s = filter (\<lambda>t. snd t = FallbackPoll) (timers s)"

text \<open>What one run of the loop did: it took the first \<open>k\<close> runners of the queue, in
  order, \<^verbatim>\<open>start()\<close> returned true \<open>k\<close> times, and the loop ended because the limiter
  is closed or the queue is empty, or else on a \<^verbatim>\<open>start()\<close> that returned false.\<close>

definition drained ::
  "('q, 'v, 'e) limiterState \<Rightarrow> ('q, 'v, 'e) limiterState \<Rightarrow> nat \<Rightarrow> ('v, 'e) action list \<Rightarrow> bool" where
  "drained s s' k new =
     (k \<le> length (queue s) \<and> trace s' = trace s @ new \<and> queue s' = drop k (queue s) \<and>
      shifts new = take k (queue s) \<and> isClosed s' = isClosed s \<and>
      (if isClosed s \<or> queue s' = [] then starts new = replicate k True
       else starts new = replicate k True @ [False]))"

subsection \<open>What every reachable state satisfies\<close>

text \<open>Timer handles are distinct and below the next handle.\<close>

definition handlesOk :: "('q, 'v, 'e) limiterState \<Rightarrow> bool" where
  "handlesOk s = (distinct (map fst (timers s)) \<and> (\<forall>t\<in>set (timers s). fst t < nextHandle s))"

text \<open>The variable \<^verbatim>\<open>timerId\<close> of \<^verbatim>\<open>pRateLimit\<close> holds a handle exactly when that
  handle is a pending poll timer.\<close>

definition fallbackOk :: "('q, 'v, 'e) limiterState \<Rightarrow> bool" where
  "fallbackOk s = (\<forall>h. (timerId s = Some h) = ((h, FallbackPoll) \<in> set (timers s)))"

text \<open>The runners taken from the queue followed by the queue are the runners pushed, in
  increasing order of task number, and every one of them is a task.\<close>

definition queueOk :: "('q, 'v, 'e) limiterState \<Rightarrow> bool" where
  "queueOk s =
     (pushes (trace s) = shifts (trace s) @ queue s \<and>
      sorted_wrt (<) (shifts (trace s) @ queue s) \<and>
      (\<forall>i\<in>set (shifts (trace s) @ queue s). i < length (tasks s)))"

text \<open>A pending deadline timer belongs to a queued task that holds its handle, and there is
  none without \<^verbatim>\<open>maxDelay\<close>.\<close>

definition deadlinesOk :: "'q quotaManager \<Rightarrow> ('q, 'v, 'e) limiterState \<Rightarrow> bool" where
  "deadlinesOk M s =
     (\<forall>h i. (h, DeadlineOf i) \<in> set (timers s) \<longrightarrow>
        truthy (qm_maxDelay M) \<and> i \<in> set (queue s) \<and> t_timerId (tasks s ! i) = Some h)"

text \<open>A queued task has not called its factory. If it holds a timer handle, that timer is
  pending and the promise is pending; if it holds none, the promise is pending (without
  \<^verbatim>\<open>maxDelay\<close>) or was rejected by the deadline (with \<^verbatim>\<open>maxDelay\<close>).\<close>

definition queuedOk :: "'q quotaManager \<Rightarrow> ('q, 'v, 'e) limiterState \<Rightarrow> bool" where
  "queuedOk M s =
     (\<forall>i\<in>set (queue s).
        t_phase (tasks s ! i) = NotStarted \<and>
        (\<forall>h. t_timerId (tasks s ! i) = Some h \<longrightarrow>
           (h, DeadlineOf i) \<in> set (timers s) \<and> t_promise (tasks s ! i) = Pending) \<and>
        (t_timerId (tasks s ! i) = None \<longrightarrow>
           t_promise (tasks s ! i) =
             (if truthy (qm_maxDelay M) then Rejected timeoutError else Pending)))"

text \<open>While the task's own promise has not settled, the caller's promise is pending.\<close>

definition runningOk :: "('q, 'v, 'e) limiterState \<Rightarrow> bool" where
  "runningOk s = (\<forall>i<length (tasks s). t_phase (tasks s ! i) = Running \<longrightarrow> t_promise (tasks s ! i) = Pending)"

text \<open>The factories called are among the runners taken, in the same order, and they are the
  tasks that have left \<open>NotStarted\<close>.\<close>

definition callsOk :: "('q, 'v, 'e) limiterState \<Rightarrow> bool" where
  "callsOk s =
     (subseq (fnCalls (trace s)) (shifts (trace s)) \<and>
      (\<forall>i. (i \<in> set (fnCalls (trace s))) = (i < length (tasks s) \<and> t_phase (tasks s ! i) \<noteq> NotStarted)))"

text \<open>The calls of \<^verbatim>\<open>resolve\<close> and \<^verbatim>\<open>reject\<close> for a task are the single call that
  settled its promise, or none while it is pending.\<close>

definition settlesOk :: "('q, 'v, 'e) limiterState \<Rightarrow> bool" where
  "settlesOk s =
     (\<forall>i. settles i (trace s) =
        (if i < length (tasks s) then settledBy i (t_promise (tasks s ! i)) else []))"

definition consistent :: "'q quotaManager \<Rightarrow> ('q, 'v, 'e) limiterState \<Rightarrow> bool" where
  "consistent M s = (handlesOk s \<and> fallbackOk s \<and> queueOk s \<and> deadlinesOk M s \<and> queuedOk M s \<and>
     runningOk s \<and> callsOk s \<and> settlesOk s)"

text \<open>A promise rejected with the timeout error belongs to a task whose factory was never
  called and whose \<^verbatim>\<open>timerId\<close> is \<^verbatim>\<open>null\<close>.\<close>

definition timedOutOk :: "('q, 'v, 'e) limiterState \<Rightarrow> bool" where
  "timedOutOk s =
     (\<forall>i<length (tasks s). t_promise (tasks s ! i) = Rejected timeoutError \<longrightarrow>
        t_phase (tasks s ! i) = NotStarted \<and> t_timerId (tasks s ! i) = None)"

text \<open>A closed limiter with a waiting queue, nothing active and the poll timer \<open>h\<close>
  armed.\<close>

definition polling :: "'q quotaManager \<Rightarrow> ('q, 'v, 'e) limiterState \<Rightarrow> nat \<Rightarrow> bool" where
  "polling M s h = (consistent M s \<and> isClosed s \<and> queue s \<noteq> [] \<and> qm_activeCount M (qm s) = 0 \<and>
     timerId s = Some h)"

subsection \<open>Examples\<close>

text \<open>
  The concrete limiter of the examples: the concurrency manager with concurrency 1,
  with \<^verbatim>\<open>maxDelay\<close> 50 or without \<^verbatim>\<open>maxDelay\<close>; task values and task errors are
  numbers.
\<close>

definition timedManager :: "concurrencyQuota quotaManager" where
  "timedManager = concurrencyManager (Some 50)"

definition plainManager :: "concurrencyQuota quotaManager" where
  "plainManager = concurrencyManager None"

definition fresh :: "(concurrencyQuota, nat, nat) limiterState" where
  "fresh = pRateLimit (newQuota 1)"

text \<open>Two calls of \<^verbatim>\<open>limiter\<close> with \<^verbatim>\<open>maxDelay\<close> 50: task 0 is running, task 1 waits
  in the queue and its deadline timer (handle 1) is pending.\<close>

definition twoSubmitted :: "(concurrencyQuota, nat, nat) limiterState" where
  "twoSubmitted = the (exec timedManager [Submit, Submit] fresh)"

text \<open>Then the deadline of task 1 fires, task 0 settles and its chain ends.\<close>

definition leaked :: "(concurrencyQuota, nat, nat) limiterState" where
  "leaked = the (exec timedManager [Submit, Submit, Fire 1, Settle 0 (Fulfilled 7), Continue 0] fresh)"

text \<open>No task is between \<^verbatim>\<open>fn()\<close> and the end of its promise chain, the one slot of the
  manager is taken, \<^verbatim>\<open>end()\<close> was called once and only the factory of task 0 was
  called.\<close>

definition stuck :: "(concurrencyQuota, nat, nat) limiterState \<Rightarrow> bool" where
  "stuck s =
     (cq_active (qm s) = 1 \<and> cq_limit (qm s) = 1 \<and>
      list_all (\<lambda>t. t_phase t = NotStarted \<or> t_phase t = Finished) (tasks s) \<and>
      count_list (trace s) QEnd = 1 \<and> fnCalls (trace s) = [0])"

text \<open>Two calls of \<^verbatim>\<open>limiter\<close>, then \<^verbatim>\<open>cleanup\<close>, then task 0 settles and its chain
  ends: the limiter is closed, task 1 waits, nothing is active, the poll timer (handle 2)
  and the deadline timer of task 1 (handle 1) are pending.\<close>

definition closedArmed :: "(concurrencyQuota, nat, nat) limiterState" where
  "closedArmed = the (exec timedManager [Submit, Submit, Cleanup, Settle 0 (Fulfilled 7), Continue 0] fresh)"


text \<open>Three calls of \<^verbatim>\<open>limiter\<close> without \<^verbatim>\<open>maxDelay\<close>; tasks 0 and 1 settle in turn.\<close>

definition threeServed :: "(concurrencyQuota, nat, nat) limiterState" where
  "threeServed =
     the (exec plainManager
       [Submit, Submit, Submit, Settle 0 (Fulfilled 1), Continue 0, Settle 1 (Failed 2), Continue 1]
       fresh)"

section \<open>Every reachable state is consistent\<close>

subsection \<open>Reading the trace\<close>

lemma queue_run: "queue (run M i s) = queue s"
  by (simp add: run_def callFn_def clearTimeout_def updTask_def emit_def split: option.split)

lemma length_queue_shiftRun:
  "queue s = q \<Longrightarrow> q \<noteq> [] \<Longrightarrow> length (queue (shiftRun M s)) < length q"
  by (cases "queue s") (auto simp: shiftRun_def queue_run emit_def)

lemma queue_startQ: "startQ M s = (ok, s1) \<Longrightarrow> queue s1 = queue s"
  by (auto simp: startQ_def emit_def split: prod.splits)

lemma pushes_simps [simp]:
  "pushes [] = []" "pushes (tr @ tr') = pushes tr @ pushes tr'" "pushes (a # tr) = pushOf a @ pushes tr"
  by (simp_all add: pushes_def)

lemma shifts_simps [simp]:
  "shifts [] = []" "shifts (tr @ tr') = shifts tr @ shifts tr'" "shifts (a # tr) = shiftOf a @ shifts tr"
  by (simp_all add: shifts_def)

lemma fnCalls_simps [simp]:
  "fnCalls [] = []" "fnCalls (tr @ tr') = fnCalls tr @ fnCalls tr'" "fnCalls (a # tr) = callOf a @ fnCalls tr"
  by (simp_all add: fnCalls_def)

lemma starts_simps [simp]:
  "starts [] = []" "starts (tr @ tr') = starts tr @ starts tr'" "starts (a # tr) = startOf a @ starts tr"
  by (simp_all add: starts_def)

lemma settles_simps [simp]:
  "settles i [] = []" "settles i (tr @ tr') = settles i tr @ settles i tr'"
  "settles i (a # tr) = (if settlesTask i a then a # settles i tr else settles i tr)"
  by (simp_all add: settles_def)

subsection \<open>Preservation by the loop body\<close>

lemma nth_upd: "xs[i := x] ! j = (if i = j \<and> i < length xs then x else xs ! j)"
  by (cases "i < length xs") (auto simp: nth_list_update list_update_beyond)

lemma dropTimer_set [simp]: "set (dropTimer h ts) = {t \<in> set ts. fst t \<noteq> h}"
  by (auto simp: dropTimer_def)

lemma dropTimer_distinct [simp]: "distinct (map fst ts) \<Longrightarrow> distinct (map fst (dropTimer h ts))"
  by (simp add: dropTimer_def distinct_map_filter)

lemma handle_unique:
  "distinct (map fst ts) \<Longrightarrow> (h, a) \<in> set ts \<Longrightarrow> (h, b) \<in> set ts \<Longrightarrow> a = b"
  by (meson eq_key_imp_eq_value)

lemma queueOk_distinct: "queueOk s \<Longrightarrow> distinct (queue s)"
proof -
  assume a: "queueOk s"
  then have "sorted_wrt (<) (shifts (trace s) @ queue s)"
    by (simp add: queueOk_def)
  then have "distinct (shifts (trace s) @ queue s)"
    using strict_sorted_iff by blast
  then show ?thesis by simp
qed

lemma queueOk_bound: "queueOk s \<Longrightarrow> i \<in> set (queue s) \<Longrightarrow> i < length (tasks s)"
  by (simp add: queueOk_def)

lemmas prims = callFn_def clearTimeout_def updTask_def emit_def setTimeout_def resolve_def reject_def

lemma shiftRun_Some:
  "queue s = i # rest \<Longrightarrow> truthy (qm_maxDelay M) \<Longrightarrow> t_timerId (tasks s ! i) = Some h \<Longrightarrow>
   shiftRun M s = s\<lparr>queue := rest, timers := dropTimer h (timers s),
      tasks := (tasks s)[i := (tasks s ! i)\<lparr>t_phase := Running\<rparr>],
      trace := trace s @ [Shift i, ClearTimeout h, FnCall i]\<rparr>"
  by (simp add: shiftRun_def run_def prims)

lemma shiftRun_None:
  "queue s = i # rest \<Longrightarrow> truthy (qm_maxDelay M) \<Longrightarrow> t_timerId (tasks s ! i) = None \<Longrightarrow>
   shiftRun M s = s\<lparr>queue := rest, trace := trace s @ [Shift i]\<rparr>"
  by (simp add: shiftRun_def run_def prims)

lemma shiftRun_plain:
  "queue s = i # rest \<Longrightarrow> \<not> truthy (qm_maxDelay M) \<Longrightarrow>
   shiftRun M s = s\<lparr>queue := rest,
      tasks := (tasks s)[i := (tasks s ! i)\<lparr>t_phase := Running\<rparr>],
      trace := trace s @ [Shift i, FnCall i]\<rparr>"
  by (simp add: shiftRun_def run_def prims)

lemma shiftRun_cases:
  assumes "queue s = i # rest"
  obtains
    (plain) "\<not> truthy (qm_maxDelay M)" 
       "shiftRun M s = s\<lparr>queue := rest,
          tasks := (tasks s)[i := (tasks s ! i)\<lparr>t_phase := Running\<rparr>],
          trace := trace s @ [Shift i, FnCall i]\<rparr>"
  | (fired) "truthy (qm_maxDelay M)" "t_timerId (tasks s ! i) = None"
       "shiftRun M s = s\<lparr>queue := rest, trace := trace s @ [Shift i]\<rparr>"
  | (armed) h where "truthy (qm_maxDelay M)" "t_timerId (tasks s ! i) = Some h"
       "shiftRun M s = s\<lparr>queue := rest, timers := dropTimer h (timers s),
          tasks := (tasks s)[i := (tasks s ! i)\<lparr>t_phase := Running\<rparr>],
          trace := trace s @ [Shift i, ClearTimeout h, FnCall i]\<rparr>"
proof (cases "truthy (qm_maxDelay M)")
  case False
  then show ?thesis using plain shiftRun_plain[OF assms] by blast
next
  case True
  show ?thesis
  proof (cases "t_timerId (tasks s ! i)")
    case None
    then show ?thesis using fired True shiftRun_None[OF assms True] by blast
  next
    case (Some h)
    then show ?thesis using armed True shiftRun_Some[OF assms True] by blast
  qed
qed

lemma handlesOk_shiftRun: 
  assumes "handlesOk s" "queue s = i # rest" shows "handlesOk (shiftRun M s)"
  using assms(2) 
proof (cases rule: shiftRun_cases[where M = M])
  case plain
  then show ?thesis using assms by (simp add: handlesOk_def)
next
  case fired
  then show ?thesis using assms by (simp add: handlesOk_def)
next
  case (armed h)
  then show ?thesis using assms by (simp add: handlesOk_def)
qed

lemma queueOk_shiftRun:
  assumes "queueOk s" "queue s = i # rest" shows "queueOk (shiftRun M s)"
  using assms(2) 
proof (cases rule: shiftRun_cases[where M = M])
  case plain
  then show ?thesis using assms by (simp add: queueOk_def)
next
  case fired
  then show ?thesis using assms by (simp add: queueOk_def)
next
  case (armed h)
  then show ?thesis using assms by (simp add: queueOk_def)
qed

lemma settlesOk_shiftRun:
  assumes "settlesOk s" "queue s = i # rest" shows "settlesOk (shiftRun M s)"
  using assms(2) 
proof (cases rule: shiftRun_cases[where M = M])
  case plain
  then show ?thesis using assms by (simp add: settlesOk_def nth_upd)
next
  case fired
  then show ?thesis using assms by (simp add: settlesOk_def)
next
  case (armed h)
  then show ?thesis using assms by (simp add: settlesOk_def nth_upd)
qed

lemma queuedOk_head:
  assumes "queuedOk M s" "queue s = i # rest"
  shows "t_phase (tasks s ! i) = NotStarted"
    and "t_timerId (tasks s ! i) = Some h \<Longrightarrow> (h, DeadlineOf i) \<in> set (timers s)"
    and "t_timerId (tasks s ! i) = Some h \<Longrightarrow> t_promise (tasks s ! i) = Pending"
    and "t_timerId (tasks s ! i) = None \<Longrightarrow> \<not> truthy (qm_maxDelay M) \<Longrightarrow> t_promise (tasks s ! i) = Pending"
  using assms by (simp_all add: queuedOk_def)

lemma fallbackOk_shiftRun:
  assumes "fallbackOk s" "handlesOk s" "queuedOk M s" "queue s = i # rest"
  shows "fallbackOk (shiftRun M s)"
  using assms(4)
proof (cases rule: shiftRun_cases[where M = M])
  case plain
  then show ?thesis using assms(1) by (simp add: fallbackOk_def)
next
  case fired
  then show ?thesis using assms(1) by (simp add: fallbackOk_def)
next
  case (armed h)
  have "(h, DeadlineOf i) \<in> set (timers s)"
    using queuedOk_head(2)[OF assms(3,4) armed(2)] .
  then have "(h, FallbackPoll) \<notin> set (timers s)"
    using handle_unique[of "timers s" h "DeadlineOf i" FallbackPoll] assms(2)
    by (auto simp: handlesOk_def)
  then show ?thesis using assms(1) armed(3) by (auto simp: fallbackOk_def)
qed

lemma deadlinesOk_shiftRun:
  assumes "deadlinesOk M s" "queue s = i # rest"
  shows "deadlinesOk M (shiftRun M s)"
  using assms(2)
proof (cases rule: shiftRun_cases[where M = M])
  case plain
  then show ?thesis using assms(1) by (simp add: deadlinesOk_def)
next
  case fired
  have "\<And>h' j. (h', DeadlineOf j) \<in> set (timers s) \<Longrightarrow> j \<in> set rest \<and> t_timerId (tasks s ! j) = Some h'"
    using assms fired(2) by (fastforce simp: deadlinesOk_def)
  then show ?thesis using fired by (simp add: deadlinesOk_def)
next
  case (armed h)
  have "\<And>h' j. (h', DeadlineOf j) \<in> set (timers s) \<Longrightarrow> h' \<noteq> h \<Longrightarrow> 
     j \<noteq> i \<and> j \<in> set rest \<and> t_timerId (tasks s ! j) = Some h'"
    using assms armed(2) by (fastforce simp: deadlinesOk_def)
  then show ?thesis using armed by (auto simp: deadlinesOk_def nth_upd)
qed

lemma queuedOk_shiftRun:
  assumes "queuedOk M s" "handlesOk s" "queueOk s" "queue s = i # rest"
  shows "queuedOk M (shiftRun M s)"
proof -
  have d: "i \<notin> set rest" using queueOk_distinct[OF assms(3)] assms(4) by simp
  have r: "\<And>j. j \<in> set rest \<Longrightarrow> j \<noteq> i \<and> t_phase (tasks s ! j) = NotStarted \<and>
        (\<forall>h. t_timerId (tasks s ! j) = Some h \<longrightarrow>
           (h, DeadlineOf j) \<in> set (timers s) \<and> t_promise (tasks s ! j) = Pending) \<and>
        (t_timerId (tasks s ! j) = None \<longrightarrow>
           t_promise (tasks s ! j) =
             (if truthy (qm_maxDelay M) then Rejected timeoutError else Pending))"
    using assms(1,4) d by (auto simp: queuedOk_def)
  from assms(4) show ?thesis
  proof (cases rule: shiftRun_cases[where M = M])
    case plain
    then show ?thesis using r d by (simp add: queuedOk_def nth_upd)
  next
    case fired
    then show ?thesis using r d by (simp add: queuedOk_def)
  next
    case (armed h)
    have m: "(h, DeadlineOf i) \<in> set (timers s)"
      using queuedOk_head(2)[OF assms(1,4) armed(2)] .
    have u: "\<And>j h'. j \<noteq> i \<Longrightarrow> (h', DeadlineOf j) \<in> set (timers s) \<Longrightarrow> h' \<noteq> h"
      using handle_unique[of "timers s" h "DeadlineOf i"] m assms(2)
      by (auto simp: handlesOk_def)
    have "\<And>j. j \<in> set rest \<Longrightarrow> j \<noteq> i \<and> t_phase (tasks s ! j) = NotStarted \<and>
        (\<forall>h'. t_timerId (tasks s ! j) = Some h' \<longrightarrow>
           (h', DeadlineOf j) \<in> set (timers s) \<and> h' \<noteq> h \<and> t_promise (tasks s ! j) = Pending) \<and>
        (t_timerId (tasks s ! j) = None \<longrightarrow>
           t_promise (tasks s ! j) =
             (if truthy (qm_maxDelay M) then Rejected timeoutError else Pending))"
      using r u by blast
    then show ?thesis using armed d by (simp add: queuedOk_def nth_upd)
  qed
qed

lemma runningOk_shiftRun:
  assumes "runningOk s" "queuedOk M s" "queue s = i # rest"
  shows "runningOk (shiftRun M s)"
  using assms(3)
proof (cases rule: shiftRun_cases[where M = M])
  case plain
  have "t_promise (tasks s ! i) = Pending"
    using queuedOk_head(3,4)[OF assms(2,3)] plain(1) by (cases "t_timerId (tasks s ! i)") auto
  then show ?thesis using assms(1) plain by (simp add: runningOk_def nth_upd)
next
  case fired
  then show ?thesis using assms(1) by (simp add: runningOk_def)
next
  case (armed h)
  have "t_promise (tasks s ! i) = Pending"
    using queuedOk_head(3)[OF assms(2,3) armed(2)] .
  then show ?thesis using assms(1) armed by (simp add: runningOk_def nth_upd)
qed

lemma subseq_snoc: "subseq xs ys \<Longrightarrow> subseq (xs @ [a]) (ys @ [a])"
  by simp

lemma subseq_snoc_right: "subseq xs ys \<Longrightarrow> subseq xs (ys @ [a])"
  by (rule list_emb_prefix)

lemma callsOk_shiftRun:
  assumes "callsOk s" "queueOk s" "queuedOk M s" "queue s = i # rest"
  shows "callsOk (shiftRun M s)"
proof -
  have b: "i < length (tasks s)" using queueOk_bound[OF assms(2)] assms(4) by simp
  have n: "t_phase (tasks s ! i) = NotStarted" using queuedOk_head(1)[OF assms(3,4)] .
  have sub: "subseq (fnCalls (trace s)) (shifts (trace s))"
    and mem: "\<And>j. (j \<in> set (fnCalls (trace s))) = (j < length (tasks s) \<and> t_phase (tasks s ! j) \<noteq> NotStarted)"
    using assms(1) by (simp_all add: callsOk_def)
  from assms(4) show ?thesis
  proof (cases rule: shiftRun_cases[where M = M])
    case plain
    then show ?thesis using subseq_snoc[OF sub] mem b n by (auto simp: callsOk_def nth_upd)
  next
    case fired
    then show ?thesis using subseq_snoc_right[OF sub] mem by (simp add: callsOk_def)
  next
    case (armed h)
    then show ?thesis using subseq_snoc[OF sub] mem b n by (auto simp: callsOk_def nth_upd)
  qed
qed

subsection \<open>Preservation by the loop and by \<^verbatim>\<open>next\<close>\<close>

lemma consistent_shiftRun:
  assumes "consistent M s" "queue s = i # rest"
  shows "consistent M (shiftRun M s)"
  using assms handlesOk_shiftRun[of s i rest M] fallbackOk_shiftRun[of s M i rest]
    queueOk_shiftRun[of s i rest M] deadlinesOk_shiftRun[of M s i rest]
    queuedOk_shiftRun[of M s i rest] runningOk_shiftRun[of s M i rest]
    callsOk_shiftRun[of s M i rest] settlesOk_shiftRun[of s i rest M]
  by (simp add: consistent_def)

lemma startQ_eq:
  "startQ M s = (fst (qm_start M (qm s)),
     s\<lparr>qm := snd (qm_start M (qm s)), trace := trace s @ [QStart (fst (qm_start M (qm s)))]\<rparr>)"
  by (simp add: startQ_def emit_def split: prod.split)

lemma consistent_startQ: 
  assumes "consistent M s" shows "consistent M (snd (startQ M s))"
proof -
  let ?s = "snd (startQ M s)"
  have "handlesOk ?s" using assms by (simp add: startQ_eq consistent_def handlesOk_def)
  moreover have "fallbackOk ?s" using assms by (simp add: startQ_eq consistent_def fallbackOk_def)
  moreover have "queueOk ?s" using assms by (simp add: startQ_eq consistent_def queueOk_def)
  moreover have "deadlinesOk M ?s" using assms by (simp add: startQ_eq consistent_def deadlinesOk_def)
  moreover have "queuedOk M ?s" using assms by (simp add: startQ_eq consistent_def queuedOk_def)
  moreover have "runningOk ?s" using assms by (simp add: startQ_eq consistent_def runningOk_def)
  moreover have "callsOk ?s" using assms by (simp add: startQ_eq consistent_def callsOk_def)
  moreover have "settlesOk ?s" using assms by (simp add: startQ_eq consistent_def settlesOk_def)
  ultimately show ?thesis by (simp add: consistent_def)
qed

lemma drain_stop: "isClosed s \<or> queue s = [] \<Longrightarrow> drain M s = s"
  by (subst drain.simps) auto

lemma drain_fail:
  "\<not> isClosed s \<Longrightarrow> queue s \<noteq> [] \<Longrightarrow> startQ M s = (False, s1) \<Longrightarrow> drain M s = s1"
  by (subst drain.simps) simp

lemma drain_iter:
  "\<not> isClosed s \<Longrightarrow> queue s \<noteq> [] \<Longrightarrow> startQ M s = (True, s1) \<Longrightarrow>
   drain M s = drain M (shiftRun M s1)"
  by (subst drain.simps) simp

lemma drain_rule [case_names stop fail iter]:
  assumes stop: "\<And>s. isClosed s \<or> queue s = [] \<Longrightarrow> Q s s"
    and fail: "\<And>s s1. \<not> isClosed s \<Longrightarrow> queue s \<noteq> [] \<Longrightarrow> startQ M s = (False, s1) \<Longrightarrow> Q s s1"
    and iter: "\<And>s s1. \<not> isClosed s \<Longrightarrow> queue s \<noteq> [] \<Longrightarrow> startQ M s = (True, s1) \<Longrightarrow>
       Q (shiftRun M s1) (drain M (shiftRun M s1)) \<Longrightarrow> Q s (drain M (shiftRun M s1))"
  shows "Q s (drain M s)"
proof -
  have "M' = M \<Longrightarrow> Q s (drain M' s)" for M'
  proof (induction M' s rule: drain.induct)
    case (1 M' s)
    note M = \<open>M' = M\<close>
    show ?case
    proof (cases "\<not> isClosed s \<and> queue s \<noteq> []")
      case False
      then show ?thesis using stop[of s] drain_stop[of s M'] by auto
    next
      case True
      then have o: "\<not> isClosed s" and n: "queue s \<noteq> []" by simp_all
      obtain ok s1 where st: "startQ M' s = (ok, s1)" by (cases "startQ M' s")
      show ?thesis
      proof (cases ok)
        case False
        with st M have st': "startQ M s = (False, s1)" by simp
        show ?thesis using fail[OF o n st'] drain_fail[OF o n st'] M by simp
      next
        case ok: True
        with st M have st': "startQ M s = (True, s1)" by simp
        have "Q (shiftRun M' s1) (drain M' (shiftRun M' s1))"
          using 1(1)[OF True st[symmetric] ok M] .
        then show ?thesis using iter[OF o n st'] drain_iter[OF o n st'] M by simp
      qed
    qed
  qed
  then show ?thesis by simp
qed

lemma consistent_drain: "consistent M s \<longrightarrow> consistent M (drain M s)"
proof (induction rule: drain_rule[where M = M])
  case (stop s)
  then show ?case by simp
next
  case (fail s s1)
  then show ?case using consistent_startQ[of M s] by simp
next
  case (iter s s1)
  show ?case
  proof
    assume c: "consistent M s"
    have c1: "consistent M s1" using consistent_startQ[OF c] iter(3) by simp
    have "queue s1 = queue s" using queue_startQ[OF iter(3)] .
    then obtain i rest where q: "queue s1 = i # rest" using iter(2) by (cases "queue s") auto
    show "consistent M (drain M (shiftRun M s1))"
      using consistent_shiftRun[OF c1 q] iter(4) by simp
  qed
qed

lemma armFallback_eq:
  "armFallback M s =
     (if queue s \<noteq> [] \<and> qm_activeCount M (qm s) = 0 \<and> timerId s = None then
        s\<lparr>timers := timers s @ [(nextHandle s, FallbackPoll)], nextHandle := Suc (nextHandle s),
          trace := trace s @ [SetTimeout (nextHandle s) FallbackPoll 100],
          timerId := Some (nextHandle s)\<rparr>
      else s)"
  by (simp add: armFallback_def setTimeout_def emit_def)

lemma consistent_armFallback:
  assumes "consistent M s" shows "consistent M (armFallback M s)"
proof (cases "queue s \<noteq> [] \<and> qm_activeCount M (qm s) = 0 \<and> timerId s = None")
  case False
  then have "armFallback M s = s" unfolding armFallback_eq by (rule if_not_P)
  then show ?thesis using assms by simp
next
  case True
  let ?s = "s\<lparr>timers := timers s @ [(nextHandle s, FallbackPoll)], nextHandle := Suc (nextHandle s),
          trace := trace s @ [SetTimeout (nextHandle s) FallbackPoll 100],
          timerId := Some (nextHandle s)\<rparr>"
  have e: "armFallback M s = ?s" unfolding armFallback_eq using True by (rule if_P)
  have "handlesOk ?s" using assms by (auto simp: consistent_def handlesOk_def)
  moreover have "fallbackOk ?s" using assms True by (auto simp: consistent_def fallbackOk_def)
  moreover have "queueOk ?s" using assms by (simp add: consistent_def queueOk_def)
  moreover have "deadlinesOk M ?s" using assms by (simp add: consistent_def deadlinesOk_def)
  moreover have "queuedOk M ?s" using assms by (simp add: consistent_def queuedOk_def)
  moreover have "runningOk ?s" using assms by (simp add: consistent_def runningOk_def)
  moreover have "callsOk ?s" using assms by (simp add: consistent_def callsOk_def)
  moreover have "settlesOk ?s" using assms by (simp add: consistent_def settlesOk_def)
  ultimately show ?thesis unfolding e by (simp add: consistent_def)
qed

lemma consistent_emit_Next: "consistent M s \<Longrightarrow> consistent M (emit Next s)"
proof -
  assume c: "consistent M s"
  let ?s = "emit Next s"
  have "handlesOk ?s" using c by (simp add: emit_def consistent_def handlesOk_def)
  moreover have "fallbackOk ?s" using c by (simp add: emit_def consistent_def fallbackOk_def)
  moreover have "queueOk ?s" using c by (simp add: emit_def consistent_def queueOk_def)
  moreover have "deadlinesOk M ?s" using c by (simp add: emit_def consistent_def deadlinesOk_def)
  moreover have "queuedOk M ?s" using c by (simp add: emit_def consistent_def queuedOk_def)
  moreover have "runningOk ?s" using c by (simp add: emit_def consistent_def runningOk_def)
  moreover have "callsOk ?s" using c by (simp add: emit_def consistent_def callsOk_def)
  moreover have "settlesOk ?s" using c by (simp add: emit_def consistent_def settlesOk_def)
  ultimately show ?thesis by (simp add: consistent_def)
qed

lemma consistent_nextFn:
  assumes "consistent M s" shows "consistent M (nextFn M s)"
proof -
  have "consistent M (drain M (emit Next s))"
    using consistent_drain[of M "emit Next s"] consistent_emit_Next[OF assms] by simp
  then show ?thesis unfolding nextFn_def by (rule consistent_armFallback)
qed

lemma consistent_cleanupFn:
  assumes c: "consistent M s" shows "consistent M (cleanupFn M s)"
proof -
  let ?s = "cleanupFn M s"
  have "handlesOk ?s" using c by (simp add: cleanupFn_def emit_def consistent_def handlesOk_def)
  moreover have "fallbackOk ?s" using c by (simp add: cleanupFn_def emit_def consistent_def fallbackOk_def)
  moreover have "queueOk ?s" using c by (simp add: cleanupFn_def emit_def consistent_def queueOk_def)
  moreover have "deadlinesOk M ?s" using c by (simp add: cleanupFn_def emit_def consistent_def deadlinesOk_def)
  moreover have "queuedOk M ?s" using c by (simp add: cleanupFn_def emit_def consistent_def queuedOk_def)
  moreover have "runningOk ?s" using c by (simp add: cleanupFn_def emit_def consistent_def runningOk_def)
  moreover have "callsOk ?s" using c by (simp add: cleanupFn_def emit_def consistent_def callsOk_def)
  moreover have "settlesOk ?s" using c by (simp add: cleanupFn_def emit_def consistent_def settlesOk_def)
  ultimately show ?thesis by (simp add: consistent_def)
qed

subsection \<open>Preservation by every event\<close>

lemma limiter_closed:
  "isClosed s \<Longrightarrow> limiter M s =
     s\<lparr>tasks := tasks s @ [newTask\<lparr>t_promise := Rejected closedError\<rparr>],
       trace := trace s @ [Reject (length (tasks s)) closedError]\<rparr>"
  by (simp add: limiter_def Let_def reject_def updTask_def emit_def settle_def newTask_def)

lemma limiter_open: "\<not> isClosed s \<Longrightarrow> limiter M s = nextFn M (enqueued M s)"
  by (simp add: limiter_def Let_def enqueued_def setTimeout_def updTask_def emit_def)

lemma consistent_limiter_closed:
  assumes c: "consistent M s" and cl: "isClosed s"
  shows "consistent M (limiter M s)"
proof -
  note e = limiter_closed[OF cl, of M]
  have b: "\<And>i. i \<in> set (queue s) \<Longrightarrow> i < length (tasks s)" 
    using c queueOk_bound[of s] by (simp add: consistent_def)
  have "handlesOk (limiter M s)" using c by (simp add: e consistent_def handlesOk_def)
  moreover have "fallbackOk (limiter M s)" using c by (simp add: e consistent_def fallbackOk_def)
  moreover have "queueOk (limiter M s)" using c
    by (auto simp: e consistent_def queueOk_def intro: less_SucI)
  moreover have "deadlinesOk M (limiter M s)" using c b by (simp add: e consistent_def deadlinesOk_def nth_append)
  moreover have "queuedOk M (limiter M s)" using c b by (simp add: e consistent_def queuedOk_def nth_append)
  moreover have "runningOk (limiter M s)" using c by (auto simp: e consistent_def runningOk_def nth_append newTask_def)
  moreover have "callsOk (limiter M s)" using c by (auto simp: e consistent_def callsOk_def nth_append newTask_def)
  moreover have "settlesOk (limiter M s)" using c by (auto simp: e consistent_def settlesOk_def nth_append settledBy_def)
  ultimately show ?thesis by (simp add: consistent_def)
qed

lemma consistent_enqueued:
  assumes c: "consistent M s"
  shows "consistent M (enqueued M s)"
proof -
  have b: "\<And>i. i \<in> set (queue s) \<Longrightarrow> i < length (tasks s)" 
    using c queueOk_bound[of s] by (simp add: consistent_def)
  have H: "handlesOk s" and F: "fallbackOk s" and Q: "queueOk s" and D: "deadlinesOk M s"
    and QD: "queuedOk M s" and R: "runningOk s" and C: "callsOk s" and S: "settlesOk s"
    using c by (simp_all add: consistent_def)
  show ?thesis
  proof (cases "truthy (qm_maxDelay M)")
    case False
    let ?s = "s\<lparr>tasks := tasks s @ [newTask], queue := queue s @ [length (tasks s)],
          trace := trace s @ [Push (length (tasks s))]\<rparr>"
    have e: "enqueued M s = ?s" using False by (simp add: enqueued_def)
    have "handlesOk ?s" using H by (simp add: handlesOk_def)
    moreover have "fallbackOk ?s" using F by (simp add: fallbackOk_def)
    moreover have "queueOk ?s" using Q
      by (auto simp: queueOk_def sorted_wrt_append intro: less_SucI)
    moreover have "deadlinesOk M ?s" using D False by (simp add: deadlinesOk_def)
    moreover have "queuedOk M ?s" using QD b False by (auto simp: queuedOk_def nth_append newTask_def)
    moreover have "runningOk ?s" using R by (auto simp: runningOk_def nth_append newTask_def)
    moreover have "callsOk ?s" using C by (auto simp: callsOk_def nth_append newTask_def)
    moreover have "settlesOk ?s" using S by (auto simp: settlesOk_def nth_append settledBy_def newTask_def)
    ultimately show ?thesis unfolding e by (simp add: consistent_def)
  next
    case True
    let ?s = "s\<lparr>timers := timers s @ [(nextHandle s, DeadlineOf (length (tasks s)))],
          nextHandle := Suc (nextHandle s),
          tasks := tasks s @ [newTask\<lparr>t_timerId := Some (nextHandle s)\<rparr>],
          queue := queue s @ [length (tasks s)],
          trace := trace s @ [SetTimeout (nextHandle s) (DeadlineOf (length (tasks s))) (the (qm_maxDelay M)),
                              Push (length (tasks s))]\<rparr>"
    have e: "enqueued M s = ?s" using True by (simp add: enqueued_def)
    have "handlesOk ?s" using H by (auto simp: handlesOk_def)
    moreover have "fallbackOk ?s" using F by (simp add: fallbackOk_def)
    moreover have "queueOk ?s" using Q
      by (auto simp: queueOk_def sorted_wrt_append intro: less_SucI)
    moreover have "deadlinesOk M ?s" using D True b by (auto simp: deadlinesOk_def nth_append)
    moreover have "queuedOk M ?s" using QD b True by (auto simp: queuedOk_def nth_append newTask_def)
    moreover have "runningOk ?s" using R by (auto simp: runningOk_def nth_append newTask_def)
    moreover have "callsOk ?s" using C by (auto simp: callsOk_def nth_append newTask_def)
    moreover have "settlesOk ?s" using S by (auto simp: settlesOk_def nth_append settledBy_def newTask_def)
    ultimately show ?thesis unfolding e by (simp add: consistent_def)
  qed
qed

lemma consistent_parts:
  assumes "consistent M s"
  shows "handlesOk s" "fallbackOk s" "queueOk s" "deadlinesOk M s"
    "queuedOk M s" "runningOk s" "callsOk s" "settlesOk s"
  using assms by (simp_all add: consistent_def)

lemma other_handle:
  assumes "handlesOk s" "(h, cb) \<in> set (timers s)" "(h', cb') \<in> set (timers s)" "cb' \<noteq> cb"
  shows "h' \<noteq> h"
proof
  assume "h' = h"
  then have "cb = cb'" using handle_unique[of "timers s" h cb cb'] assms by (simp add: handlesOk_def)
  then show False using assms(4) by simp
qed

lemma consistent_fallback_prefix:
  assumes c: "consistent M s" and m: "(h, FallbackPoll) \<in> set (timers s)"
  shows "consistent M (s\<lparr>timers := dropTimer h (timers s), timerId := None\<rparr>)"
proof -
  note p = consistent_parts[OF c]
  let ?s = "s\<lparr>timers := dropTimer h (timers s), timerId := None\<rparr>"
  have u: "\<And>h' cb. (h', cb) \<in> set (timers s) \<Longrightarrow> cb \<noteq> FallbackPoll \<Longrightarrow> h' \<noteq> h"
    using other_handle[OF p(1) m] by blast
  have "handlesOk ?s" using p(1) by (simp add: handlesOk_def)
  moreover have "fallbackOk ?s"
  proof -
    have "\<And>h'. (h', FallbackPoll) \<in> set (timers s) \<Longrightarrow> h' = h"
      using p(2) m unfolding fallbackOk_def by (metis option.inject)
    then show ?thesis by (auto simp: fallbackOk_def)
  qed
  moreover have "queueOk ?s" using p(3) by (simp add: queueOk_def)
  moreover have "deadlinesOk M ?s" using p(4) by (auto simp: deadlinesOk_def)
  moreover have "queuedOk M ?s" using p(5) u by (auto simp: queuedOk_def)
  moreover have "runningOk ?s" using p(6) by (simp add: runningOk_def)
  moreover have "callsOk ?s" using p(7) by (simp add: callsOk_def)
  moreover have "settlesOk ?s" using p(8) by (simp add: settlesOk_def)
  ultimately show ?thesis by (simp add: consistent_def)
qed

lemma deadline_prefix_eq:
  "t_promise (tasks s ! i) = Pending \<Longrightarrow> i < length (tasks s) \<Longrightarrow>
   reject i timeoutError (updTask i (\<lambda>t. t\<lparr>t_timerId := None\<rparr>) (s\<lparr>timers := dropTimer h (timers s)\<rparr>)) =
   s\<lparr>timers := dropTimer h (timers s),
     tasks := (tasks s)[i := (tasks s ! i)\<lparr>t_timerId := None, t_promise := Rejected timeoutError\<rparr>],
     trace := trace s @ [Reject i timeoutError]\<rparr>"
  by (simp add: reject_def updTask_def emit_def settle_def nth_upd)

lemma consistent_deadline_prefix:
  assumes c: "consistent M s" and m: "(h, DeadlineOf i) \<in> set (timers s)"
  shows "consistent M (s\<lparr>timers := dropTimer h (timers s),
     tasks := (tasks s)[i := (tasks s ! i)\<lparr>t_timerId := None, t_promise := Rejected timeoutError\<rparr>],
     trace := trace s @ [Reject i timeoutError]\<rparr>)" (is "consistent M ?s")
proof -
  note p = consistent_parts[OF c]
  have t: "truthy (qm_maxDelay M)" and q: "i \<in> set (queue s)" and ti: "t_timerId (tasks s ! i) = Some h"
    using p(4) m by (auto simp: deadlinesOk_def)
  have b: "i < length (tasks s)" using queueOk_bound[OF p(3) q] .
  have n: "t_phase (tasks s ! i) = NotStarted" and pe: "t_promise (tasks s ! i) = Pending"
    using p(5) q ti by (auto simp: queuedOk_def)
  have u: "\<And>h' cb. (h', cb) \<in> set (timers s) \<Longrightarrow> cb \<noteq> DeadlineOf i \<Longrightarrow> h' \<noteq> h"
    using other_handle[OF p(1) m] by blast
  have "handlesOk ?s" using p(1) by (simp add: handlesOk_def)
  moreover have "fallbackOk ?s" using p(2) u[of _ FallbackPoll] by (auto simp: fallbackOk_def)
  moreover have "queueOk ?s" using p(3) by (simp add: queueOk_def)
  moreover have "deadlinesOk M ?s" 
  proof -
    have "\<And>h' j. (h', DeadlineOf j) \<in> set (timers s) \<Longrightarrow> h' \<noteq> h \<Longrightarrow> 
       j \<noteq> i \<and> j \<in> set (queue s) \<and> t_timerId (tasks s ! j) = Some h'"
      using p(4) ti by (fastforce simp: deadlinesOk_def)
    then show ?thesis using t by (auto simp: deadlinesOk_def nth_upd)
  qed
  moreover have "queuedOk M ?s"
  proof -
    have "\<And>j. j \<in> set (queue s) \<Longrightarrow> j \<noteq> i \<Longrightarrow> t_phase (tasks s ! j) = NotStarted \<and>
        (\<forall>h'. t_timerId (tasks s ! j) = Some h' \<longrightarrow>
           (h', DeadlineOf j) \<in> set (timers s) \<and> h' \<noteq> h \<and> t_promise (tasks s ! j) = Pending) \<and>
        (t_timerId (tasks s ! j) = None \<longrightarrow>
           t_promise (tasks s ! j) =
             (if truthy (qm_maxDelay M) then Rejected timeoutError else Pending))"
      using p(5) u unfolding queuedOk_def by (metis callback.inject)
    then show ?thesis using t n b by (simp add: queuedOk_def nth_upd)
  qed
  moreover have "runningOk ?s" using p(6) n by (auto simp: runningOk_def nth_upd)
  moreover have "callsOk ?s" using p(7) by (auto simp: callsOk_def nth_upd)
  moreover have "settlesOk ?s" using p(8) pe b by (auto simp: settlesOk_def nth_upd settledBy_def)
  ultimately show ?thesis by (simp add: consistent_def)
qed

lemma settledBy_simps [simp]:
  "settledBy i Pending = []" "settledBy i (Resolved v) = [Resolve i v]"
  "settledBy i (Rejected r) = [Reject i r]"
  by (simp_all add: settledBy_def)

lemma settleAction_simps [simp]:
  "pushOf (settleAction i out) = []" "shiftOf (settleAction i out) = []"
  "callOf (settleAction i out) = []" "settlesTask j (settleAction i out) = (i = j)"
  "settledBy i (settledPromise out) = [settleAction i out]"
  "settledPromise out \<noteq> Pending"
  by (cases out; simp add: settleAction_def settledPromise_def settledBy_def)+

lemma settled_eq:
  "t_promise (tasks s ! i) = Pending \<Longrightarrow> i < length (tasks s) \<Longrightarrow>
   settled M i out s =
   s\<lparr>qm := qm_end M (qm s),
     tasks := (tasks s)[i := (tasks s ! i)\<lparr>t_promise := settledPromise out, t_phase := Settling\<rparr>],
     trace := trace s @ [QEnd, settleAction i out]\<rparr>"
  by (cases out) (simp_all add: settled_def resolve_def reject_def updTask_def emit_def settle_def
      settleAction_def settledPromise_def)

lemma consistent_settled:
  assumes c: "consistent M s" and b: "i < length (tasks s)" and r: "t_phase (tasks s ! i) = Running"
  shows "consistent M (settled M i out s)"
proof -
  note p = consistent_parts[OF c]
  have pe: "t_promise (tasks s ! i) = Pending" using p(6) b r by (simp add: runningOk_def)
  note e = settled_eq[OF pe b, of M out]
  have nq: "\<And>j. j \<in> set (queue s) \<Longrightarrow> j \<noteq> i" using p(5) r by (auto simp: queuedOk_def)
  have "handlesOk (settled M i out s)" using p(1) by (simp add: e handlesOk_def)
  moreover have "fallbackOk (settled M i out s)" using p(2) by (simp add: e fallbackOk_def)
  moreover have "queueOk (settled M i out s)" using p(3) by (simp add: e queueOk_def)
  moreover have "deadlinesOk M (settled M i out s)" using p(4) nq by (auto simp: e deadlinesOk_def nth_upd)
  moreover have "queuedOk M (settled M i out s)" using p(5) nq by (auto simp: e queuedOk_def nth_upd)
  moreover have "runningOk (settled M i out s)" using p(6) by (auto simp: e runningOk_def nth_upd)
  moreover have "callsOk (settled M i out s)" using p(7) r by (auto simp: e callsOk_def nth_upd)
  moreover have "settlesOk (settled M i out s)" using p(8) pe b by (auto simp: e settlesOk_def nth_upd)
  ultimately show ?thesis by (simp add: consistent_def)
qed

lemma consistent_finished:
  assumes c: "consistent M s" and r: "t_phase (tasks s ! i) = Settling"
  shows "consistent M (updTask i (\<lambda>t. t\<lparr>t_phase := Finished\<rparr>) s)" (is "consistent M ?s")
proof -
  note p = consistent_parts[OF c]
  have nq: "\<And>j. j \<in> set (queue s) \<Longrightarrow> j \<noteq> i" using p(5) r by (auto simp: queuedOk_def)
  have "handlesOk ?s" using p(1) by (simp add: updTask_def handlesOk_def)
  moreover have "fallbackOk ?s" using p(2) by (simp add: updTask_def fallbackOk_def)
  moreover have "queueOk ?s" using p(3) by (simp add: updTask_def queueOk_def)
  moreover have "deadlinesOk M ?s" using p(4) nq by (auto simp: updTask_def deadlinesOk_def nth_upd)
  moreover have "queuedOk M ?s" using p(5) nq by (auto simp: updTask_def queuedOk_def nth_upd)
  moreover have "runningOk ?s" using p(6) by (auto simp: updTask_def runningOk_def nth_upd)
  moreover have "callsOk ?s" using p(7) r by (auto simp: updTask_def callsOk_def nth_upd)
  moreover have "settlesOk ?s" using p(8) by (auto simp: updTask_def settlesOk_def nth_upd)
  ultimately show ?thesis by (simp add: consistent_def)
qed

lemma deadline_pending:
  assumes c: "consistent M s" and m: "(h, DeadlineOf i) \<in> set (timers s)"
  shows "truthy (qm_maxDelay M)" "i \<in> set (queue s)" "i < length (tasks s)"
    "t_timerId (tasks s ! i) = Some h" "t_phase (tasks s ! i) = NotStarted"
    "t_promise (tasks s ! i) = Pending"
proof -
  note p = consistent_parts[OF c]
  show t: "truthy (qm_maxDelay M)" and q: "i \<in> set (queue s)" and ti: "t_timerId (tasks s ! i) = Some h"
    using p(4) m by (auto simp: deadlinesOk_def)
  show "i < length (tasks s)" using queueOk_bound[OF p(3) q] .
  show "t_phase (tasks s ! i) = NotStarted" and "t_promise (tasks s ! i) = Pending"
    using p(5) q ti by (auto simp: queuedOk_def)
qed

lemma step_Fire_fallback:
  "map_of (timers s) h = Some FallbackPoll \<Longrightarrow>
   step M (Fire h) s = Some (nextFn M (s\<lparr>timers := dropTimer h (timers s), timerId := None\<rparr>))"
  by (simp add: fallbackFired_def)

lemma step_Fire_deadline:
  assumes "consistent M s" "map_of (timers s) h = Some (DeadlineOf i)"
  shows "step M (Fire h) s = Some (nextFn M (s\<lparr>timers := dropTimer h (timers s),
     tasks := (tasks s)[i := (tasks s ! i)\<lparr>t_timerId := None, t_promise := Rejected timeoutError\<rparr>],
     trace := trace s @ [Reject i timeoutError]\<rparr>))"
proof -
  have m: "(h, DeadlineOf i) \<in> set (timers s)" using assms(2) by (rule map_of_SomeD)
  note d = deadline_pending[OF assms(1) m]
  have "deadlineFired M i (s\<lparr>timers := dropTimer h (timers s)\<rparr>) =
     nextFn M (s\<lparr>timers := dropTimer h (timers s),
     tasks := (tasks s)[i := (tasks s ! i)\<lparr>t_timerId := None, t_promise := Rejected timeoutError\<rparr>],
     trace := trace s @ [Reject i timeoutError]\<rparr>)"
    unfolding deadlineFired_def using deadline_prefix_eq[OF d(6) d(3), of h] by simp
  then show ?thesis using assms(2) by simp
qed

lemma consistent_step:
  assumes c: "consistent M s" and st: "step M e s = Some s'"
  shows "consistent M s'"
proof (cases e)
  case Submit
  show ?thesis
  proof (cases "isClosed s")
    case True
    then show ?thesis using consistent_limiter_closed[OF c] st Submit by simp
  next
    case False
    then show ?thesis
      using consistent_nextFn[OF consistent_enqueued[OF c]] limiter_open[of s M] st Submit by simp
  qed
next
  case Cleanup
  then show ?thesis using consistent_cleanupFn[OF c] st by simp
next
  case (Fire h)
  then obtain cb where m: "map_of (timers s) h = Some cb"
    using st by (cases "map_of (timers s) h") simp_all
  show ?thesis
  proof (cases cb)
    case FallbackPoll
    have "consistent M (nextFn M (s\<lparr>timers := dropTimer h (timers s), timerId := None\<rparr>))"
      using consistent_nextFn[OF consistent_fallback_prefix[OF c]] m FallbackPoll map_of_SomeD by fastforce
    then show ?thesis using st Fire step_Fire_fallback[of s h M] m FallbackPoll by simp
  next
    case (DeadlineOf i)
    have "(h, DeadlineOf i) \<in> set (timers s)" using m DeadlineOf map_of_SomeD by fastforce
    then have "consistent M (nextFn M (s\<lparr>timers := dropTimer h (timers s),
       tasks := (tasks s)[i := (tasks s ! i)\<lparr>t_timerId := None, t_promise := Rejected timeoutError\<rparr>],
       trace := trace s @ [Reject i timeoutError]\<rparr>))"
      using consistent_nextFn[OF consistent_deadline_prefix[OF c]] by simp
    then show ?thesis using st Fire step_Fire_deadline[OF c, of h i] m DeadlineOf by simp
  qed
next
  case (Settle i out)
  then show ?thesis using consistent_settled[OF c, of i out] st by (simp split: if_splits)
next
  case (Continue i)
  then show ?thesis
    using consistent_nextFn[OF consistent_finished[OF c, of i]] st
    by (simp add: continued_def split: if_splits)
qed

lemma consistent_exec:
  "consistent M s \<Longrightarrow> exec M evs s = Some s' \<Longrightarrow> consistent M s'"
proof (induction evs arbitrary: s)
  case Nil
  then show ?case by simp
next
  case (Cons e evs)
  then obtain s1 where s1: "step M e s = Some s1" and r: "exec M evs s1 = Some s'"
    by (cases "step M e s") simp_all
  show ?case using Cons.IH[OF consistent_step[OF Cons.prems(1) s1] r] .
qed

lemma consistent_init: "consistent M (pRateLimit q)"
  by (simp add: consistent_def pRateLimit_def handlesOk_def fallbackOk_def queueOk_def
      deadlinesOk_def queuedOk_def runningOk_def callsOk_def settlesOk_def)

lemma consistent_reachable: "exec M evs (pRateLimit q) = Some s \<Longrightarrow> consistent M s"
  using consistent_exec[OF consistent_init] .

subsection \<open>What each event appends to the trace\<close>









text \<open>Fields the loop leaves alone.\<close>

lemma isClosed_shiftRun [simp]: "isClosed (shiftRun M s) = isClosed s"
  by (simp add: shiftRun_def run_def prims split: list.split option.split)

lemma length_tasks_shiftRun [simp]: "length (tasks (shiftRun M s)) = length (tasks s)"
  by (simp add: shiftRun_def run_def prims split: list.split option.split)

lemma isClosed_drain [simp]: "isClosed (drain M s) = isClosed s"
proof (induction rule: drain_rule[where M = M])
  case (stop s) then show ?case by simp
next
  case (fail s s1) then show ?case by (auto simp: startQ_eq)
next
  case (iter s s1) then show ?case by (auto simp: startQ_eq)
qed

lemma length_tasks_drain [simp]: "length (tasks (drain M s)) = length (tasks s)"
proof (induction rule: drain_rule[where M = M])
  case (stop s) then show ?case by simp
next
  case (fail s s1) then show ?case by (auto simp: startQ_eq)
next
  case (iter s s1) then show ?case by (auto simp: startQ_eq)
qed

lemma isClosed_armFallback [simp]: "isClosed (armFallback M s) = isClosed s"
  by (simp add: armFallback_eq)

lemma length_tasks_armFallback [simp]: "length (tasks (armFallback M s)) = length (tasks s)"
  by (simp add: armFallback_eq)

lemma isClosed_nextFn [simp]: "isClosed (nextFn M s) = isClosed s"
  by (simp add: nextFn_def emit_def)

lemma length_tasks_nextFn [simp]: "length (tasks (nextFn M s)) = length (tasks s)"
  by (simp add: nextFn_def emit_def)

lemma trace_prims [simp]:
  "trace (emit a s) = trace s @ [a]"
  "trace (updTask i f s) = trace s"
  "trace (reject i r s) = trace s @ [Reject i r]"
  "trace (resolve i v s) = trace s @ [Resolve i v]"
  by (simp_all add: prims)

lemma isClosed_prims [simp]:
  "isClosed (emit a s) = isClosed s"
  "isClosed (updTask i f s) = isClosed s"
  "isClosed (reject i r s) = isClosed s"
  "isClosed (resolve i v s) = isClosed s"
  by (simp_all add: prims)



lemma isClosed_settled [simp]: "isClosed (settled M i out s) = isClosed s"
  by (cases out) (simp_all add: settled_def)


lemma isClosed_enqueued [simp]: "isClosed (enqueued M s) = isClosed s"
  by (simp add: enqueued_def)


lemma step_isClosed:
  assumes "step M e s = Some s'"
  shows "isClosed s' = (isClosed s \<or> e = Cleanup)"
proof (cases e)
  case Submit
  then show ?thesis using assms
    by (cases "isClosed s") (auto simp: limiter_closed limiter_open)
next
  case Cleanup
  then show ?thesis using assms by (auto simp: cleanupFn_def)
next
  case (Fire h)
  then show ?thesis using assms
    by (auto simp: fallbackFired_def deadlineFired_def split: option.splits callback.splits)
next
  case (Settle i out)
  then show ?thesis using assms by (auto split: if_splits)
next
  case (Continue i)
  then show ?thesis using assms by (auto simp: continued_def split: if_splits)
qed

subsection \<open>A closed limiter\<close>


lemma exec_isClosed: "exec M evs s = Some s' \<Longrightarrow> isClosed s \<Longrightarrow> isClosed s'"
proof (induction evs arbitrary: s)
  case Nil
  then show ?case by simp
next
  case (Cons e evs)
  then obtain s1 where s1: "step M e s = Some s1" and r: "exec M evs s1 = Some s'"
    by (cases "step M e s") simp_all
  show ?case using Cons.IH[OF r] step_isClosed[OF s1] Cons.prems(2) by simp
qed

lemma nextFn_closed: "isClosed s \<Longrightarrow> nextFn M s = armFallback M (emit Next s)"
  by (simp add: nextFn_def drain_stop)

lemma queue_armFallback [simp]: "queue (armFallback M s) = queue s"
  by (simp add: armFallback_eq)

lemma qm_armFallback [simp]: "qm (armFallback M s) = qm s"
  by (simp add: armFallback_eq)

lemma tasks_armFallback [simp]: "tasks (armFallback M s) = tasks s"
  by (simp add: armFallback_eq)



lemma fields_armFallback_arm:
  assumes "queue s \<noteq> []" "qm_activeCount M (qm s) = 0" "timerId s = None"
  shows "armFallback M s = s\<lparr>timers := timers s @ [(nextHandle s, FallbackPoll)], nextHandle := Suc (nextHandle s),
          trace := trace s @ [SetTimeout (nextHandle s) FallbackPoll 100],
          timerId := Some (nextHandle s)\<rparr>"
  unfolding armFallback_eq using assms by simp

lemma nextFn_closed_arm:
  assumes "isClosed s" "queue s \<noteq> []" "qm_activeCount M (qm s) = 0" "timerId s = None"
  shows "nextFn M s = s\<lparr>trace := trace s @ [Next, SetTimeout (nextHandle s) FallbackPoll 100],
      timers := timers s @ [(nextHandle s, FallbackPoll)], nextHandle := Suc (nextHandle s),
      timerId := Some (nextHandle s)\<rparr>"
  using assms by (simp add: nextFn_closed fields_armFallback_arm emit_def)

lemma fallbackOk_armed: "fallbackOk s \<Longrightarrow> timerId s = Some h \<Longrightarrow> (h, FallbackPoll) \<in> set (timers s)"
  unfolding fallbackOk_def by blast

lemma fallbackOk_pending: "fallbackOk s \<Longrightarrow> (h, FallbackPoll) \<in> set (timers s) \<Longrightarrow> timerId s = Some h"
  unfolding fallbackOk_def by blast

lemma map_of_handle:
  "handlesOk s \<Longrightarrow> (h, cb) \<in> set (timers s) \<Longrightarrow> map_of (timers s) h = Some cb"
  by (simp add: handlesOk_def)

subsection \<open>Tasks the loop leaves alone\<close>







subsection \<open>Tasks rejected by their deadline\<close>

lemma timedOutOk_same:
  "tasks s' = tasks s \<Longrightarrow> timedOutOk s \<Longrightarrow> timedOutOk s'"
  by (simp add: timedOutOk_def)

lemma timedOutOk_shiftRun:
  assumes "timedOutOk s" "queuedOk M s" "deadlinesOk M s"
  shows "timedOutOk (shiftRun M s)"
proof (cases "queue s")
  case Nil
  then show ?thesis using assms(1) by (simp add: shiftRun_def)
next
  case (Cons i rest)
  from Cons show ?thesis
  proof (cases rule: shiftRun_cases[where M = M])
    case plain
    have "t_promise (tasks s ! i) = Pending"
      using queuedOk_head(3,4)[OF assms(2) Cons] plain(1) by (cases "t_timerId (tasks s ! i)") auto
    then show ?thesis using assms(1) plain by (auto simp: timedOutOk_def nth_upd)
  next
    case fired
    then show ?thesis using assms(1) by (simp add: timedOutOk_def)
  next
    case (armed h)
    have "t_promise (tasks s ! i) = Pending"
      using queuedOk_head(3)[OF assms(2) Cons armed(2)] .
    then show ?thesis using assms(1) armed by (auto simp: timedOutOk_def nth_upd)
  qed
qed

lemma timedOutOk_drain: "consistent M s \<and> timedOutOk s \<longrightarrow> timedOutOk (drain M s)"
proof (induction rule: drain_rule[where M = M])
  case (stop s)
  show ?case by simp
next
  case (fail s s1)
  then show ?case using timedOutOk_same[of s1 s] by (auto simp: startQ_eq)
next
  case (iter s s1)
  show ?case
  proof
    assume a: "consistent M s \<and> timedOutOk s"
    have c1: "consistent M s1" using consistent_startQ[of M s] a iter(3) by simp
    have t1: "timedOutOk s1" using timedOutOk_same[of s1 s] a iter(3) by (auto simp: startQ_eq)
    obtain i rest where q: "queue s1 = i # rest"
      using iter(2) queue_startQ[OF iter(3)] by (cases "queue s") auto
    have c2: "consistent M (shiftRun M s1)" using consistent_shiftRun[OF c1 q] .
    have "timedOutOk (shiftRun M s1)"
      using timedOutOk_shiftRun[OF t1] consistent_parts(4,5)[OF c1] by simp
    then show "timedOutOk (drain M (shiftRun M s1))" using iter(4) c2 by simp
  qed
qed

lemma timedOutOk_nextFn:
  assumes "consistent M s" "timedOutOk s"
  shows "timedOutOk (nextFn M s)"
proof -
  have "timedOutOk (emit Next s)" using timedOutOk_same[of "emit Next s" s] assms(2) by (simp add: emit_def)
  then have "timedOutOk (drain M (emit Next s))"
    using timedOutOk_drain[of M "emit Next s"] consistent_emit_Next[OF assms(1)] by simp
  then show ?thesis
    using timedOutOk_same[of "armFallback M (drain M (emit Next s))" "drain M (emit Next s)"]
    by (simp add: nextFn_def)
qed

lemma settledPromise_not_timeout [simp]: "settledPromise out \<noteq> Rejected timeoutError"
  by (cases out) (simp_all add: settledPromise_def timeoutError_def)

lemma closed_not_timeout [simp]: "(closedError :: 'e rejection) \<noteq> timeoutError"
  by (simp add: closedError_def timeoutError_def)

lemma timedOutOk_step:
  assumes c: "consistent M s" and t: "timedOutOk s" and st: "step M e s = Some s'"
  shows "timedOutOk s'"
proof (cases e)
  case Submit
  show ?thesis
  proof (cases "isClosed s")
    case True
    have "timedOutOk (limiter M s)"
      using t by (auto simp: limiter_closed[OF True] timedOutOk_def nth_append newTask_def)
    then show ?thesis using st Submit by simp
  next
    case False
    have "timedOutOk (enqueued M s)"
      using t by (auto simp: enqueued_def timedOutOk_def nth_append newTask_def)
    then show ?thesis
      using timedOutOk_nextFn[OF consistent_enqueued[OF c]] limiter_open[OF False, of M] st Submit by simp
  qed
next
  case Cleanup
  then show ?thesis using timedOutOk_same[of "cleanupFn M s" s] t st by (auto simp: cleanupFn_def emit_def)
next
  case (Fire h)
  then obtain cb where m: "map_of (timers s) h = Some cb"
    using st by (cases "map_of (timers s) h") simp_all
  show ?thesis
  proof (cases cb)
    case FallbackPoll
    have mm: "(h, FallbackPoll) \<in> set (timers s)" using m FallbackPoll map_of_SomeD by fastforce
    have "timedOutOk (s\<lparr>timers := dropTimer h (timers s), timerId := None\<rparr>)"
      using t by (simp add: timedOutOk_def)
    then have "timedOutOk (nextFn M (s\<lparr>timers := dropTimer h (timers s), timerId := None\<rparr>))"
      using timedOutOk_nextFn[OF consistent_fallback_prefix[OF c mm]] by simp
    then show ?thesis using st Fire step_Fire_fallback[of s h M] m FallbackPoll by simp
  next
    case (DeadlineOf i)
    have mm: "(h, DeadlineOf i) \<in> set (timers s)" using m DeadlineOf map_of_SomeD by fastforce
    note d = deadline_pending[OF c mm]
    let ?s0 = "s\<lparr>timers := dropTimer h (timers s),
       tasks := (tasks s)[i := (tasks s ! i)\<lparr>t_timerId := None, t_promise := Rejected timeoutError\<rparr>],
       trace := trace s @ [Reject i timeoutError]\<rparr>"
    have "timedOutOk ?s0" using t d(5) by (auto simp: timedOutOk_def nth_upd)
    then have "timedOutOk (nextFn M ?s0)"
      using timedOutOk_nextFn[OF consistent_deadline_prefix[OF c mm]] by simp
    then show ?thesis using st Fire step_Fire_deadline[OF c, of h i] m DeadlineOf by simp
  qed
next
  case (Settle i out)
  have r: "i < length (tasks s)" "t_phase (tasks s ! i) = Running"
    using st Settle by (simp_all split: if_splits)
  have pe: "t_promise (tasks s ! i) = Pending"
    using consistent_parts(6)[OF c] r by (simp add: runningOk_def)
  have "timedOutOk (settled M i out s)"
    using t by (auto simp: settled_eq[OF pe r(1)] timedOutOk_def nth_upd)
  then show ?thesis using st Settle r by simp
next
  case (Continue i)
  have r: "i < length (tasks s)" "t_phase (tasks s ! i) = Settling"
    using st Continue by (simp_all split: if_splits)
  have "timedOutOk (updTask i (\<lambda>t. t\<lparr>t_phase := Finished\<rparr>) s)"
    using t r by (auto simp: updTask_def timedOutOk_def nth_upd)
  then show ?thesis
    using timedOutOk_nextFn[OF consistent_finished[OF c r(2)]] st Continue r
    by (simp add: continued_def)
qed

lemma timedOutOk_exec:
  "consistent M s \<Longrightarrow> timedOutOk s \<Longrightarrow> exec M evs s = Some s' \<Longrightarrow> timedOutOk s'"
proof (induction evs arbitrary: s)
  case Nil
  then show ?case by simp
next
  case (Cons e evs)
  then obtain s1 where s1: "step M e s = Some s1" and r: "exec M evs s1 = Some s'"
    by (cases "step M e s") simp_all
  show ?case
    using Cons.IH[OF consistent_step[OF Cons.prems(1) s1] timedOutOk_step[OF Cons.prems(1,2) s1] r] .
qed

lemma timedOutOk_reachable: "exec M evs (pRateLimit q) = Some s \<Longrightarrow> timedOutOk s"
proof -
  assume e: "exec M evs (pRateLimit q) = Some s"
  have "timedOutOk (pRateLimit q :: ('a, 'b, 'c) limiterState)"
    by (simp add: timedOutOk_def pRateLimit_def)
  then show ?thesis using timedOutOk_exec[OF consistent_init _ e] by simp
qed



lemma settlesOk_member:
  assumes "settlesOk s" "Reject i r \<in> set (trace s)"
  shows "i < length (tasks s) \<and> t_promise (tasks s ! i) = Rejected r"
proof -
  have m: "Reject i r \<in> set (settles i (trace s))" using assms(2) by (simp add: settles_def)
  have e: "settles i (trace s) = (if i < length (tasks s) then settledBy i (t_promise (tasks s ! i)) else [])"
    using assms(1) by (simp add: settlesOk_def)
  show ?thesis
  proof (cases "i < length (tasks s)")
    case True
    then show ?thesis using m e by (cases "t_promise (tasks s ! i)") auto
  next
    case False
    then show ?thesis using m e by simp
  qed
qed

section \<open>The claims\<close>

lemma twoSubmitted_reached:
  "exec timedManager [Submit, Submit] (pRateLimit (newQuota 1)) = Some twoSubmitted"
proof -
  have "exec timedManager [Submit, Submit] fresh \<noteq> None" by code_simp
  then show ?thesis by (auto simp: twoSubmitted_def fresh_def)
qed

lemma leaked_reached:
  "exec timedManager [Submit, Submit, Fire 1, Settle 0 (Fulfilled 7), Continue 0]
     (pRateLimit (newQuota 1)) = Some leaked"
proof -
  have "exec timedManager [Submit, Submit, Fire 1, Settle 0 (Fulfilled 7), Continue 0] fresh \<noteq> None"
    by code_simp
  then show ?thesis by (auto simp: leaked_def fresh_def)
qed

lemma closedArmed_reached:
  "exec timedManager [Submit, Submit, Cleanup, Settle 0 (Fulfilled 7), Continue 0]
     (pRateLimit (newQuota 1)) = Some closedArmed"
proof -
  have "exec timedManager [Submit, Submit, Cleanup, Settle 0 (Fulfilled 7), Continue 0] fresh \<noteq> None"
    by code_simp
  then show ?thesis by (auto simp: closedArmed_def fresh_def)
qed


lemma threeServed_reached:
  "exec plainManager
     [Submit, Submit, Submit, Settle 0 (Fulfilled 1), Continue 0, Settle 1 (Failed 2), Continue 1]
     (pRateLimit (newQuota 1)) = Some threeServed"
proof -
  have "exec plainManager
     [Submit, Submit, Submit, Settle 0 (Fulfilled 1), Continue 0, Settle 1 (Failed 2), Continue 1]
     fresh \<noteq> None"
    by code_simp
  then show ?thesis by (auto simp: threeServed_def fresh_def)
qed

subsection \<open>C1: a runner abandoned by its deadline keeps its slot\<close>

lemma stuck_leaked: "stuck leaked"
  unfolding stuck_def by code_simp

lemma startQ_stuck:
  "stuck s \<Longrightarrow> startQ timedManager s = (False, s\<lparr>trace := trace s @ [QStart False]\<rparr>)"
  by (simp add: startQ_def stuck_def timedManager_def concurrencyManager_def cq_start_def emit_def)

lemma drain_stuck:
  assumes "stuck s"
  shows "drain timedManager s = s \<or> drain timedManager s = s\<lparr>trace := trace s @ [QStart False]\<rparr>"
proof (cases "\<not> isClosed s \<and> queue s \<noteq> []")
  case True
  then show ?thesis using drain_fail[OF _ _ startQ_stuck[OF assms]] by simp
next
  case False
  then show ?thesis using drain_stop[of s timedManager] by auto
qed

lemma stuck_trace: 
  "stuck s \<Longrightarrow> tasks s' = tasks s \<Longrightarrow> qm s' = qm s \<Longrightarrow> trace s' = trace s @ new \<Longrightarrow>
   count_list new QEnd = 0 \<Longrightarrow> fnCalls new = [] \<Longrightarrow> stuck s'"
  by (simp add: stuck_def)

lemma nextFn_stuck: assumes "stuck s" shows "stuck (nextFn timedManager s)"
proof -
  have s1: "stuck (emit Next s)"
    using stuck_trace[OF assms, of "emit Next s" "[Next]"] by (simp add: emit_def)
  have s2: "stuck (drain timedManager (emit Next s))"
    using drain_stuck[OF s1] s1 stuck_trace[OF s1, of "emit Next s\<lparr>trace := trace (emit Next s) @ [QStart False]\<rparr>" "[QStart False]"]
    by auto
  have "qm_activeCount timedManager (qm (drain timedManager (emit Next s))) \<noteq> 0"
    using s2 by (simp add: stuck_def timedManager_def concurrencyManager_def)
  then have "armFallback timedManager (drain timedManager (emit Next s)) = drain timedManager (emit Next s)"
    by (simp add: armFallback_eq)
  then show ?thesis using s2 by (simp add: nextFn_def)
qed

lemma stuck_step:
  assumes "stuck s" "step timedManager e s = Some s'"
  shows "stuck s'"
proof (cases e)
  case Submit
  show ?thesis
  proof (cases "isClosed s")
    case True
    then show ?thesis using assms Submit
      by (auto simp: limiter_closed stuck_def newTask_def)
  next
    case False
    have "stuck (enqueued timedManager s)"
      using assms(1) by (simp add: enqueued_def stuck_def newTask_def)
    moreover have "s' = nextFn timedManager (enqueued timedManager s)"
      using assms(2) Submit limiter_open[OF False, of timedManager] by simp
    ultimately show ?thesis using nextFn_stuck by simp
  qed
next
  case Cleanup
  then show ?thesis using assms
    by (auto simp: cleanupFn_def emit_def stuck_def timedManager_def concurrencyManager_def cq_close_def)
next
  case (Fire h)
  then obtain cb where m: "map_of (timers s) h = Some cb"
    using assms(2) by (cases "map_of (timers s) h") simp_all
  show ?thesis
  proof (cases cb)
    case FallbackPoll
    have "stuck (s\<lparr>timers := dropTimer h (timers s), timerId := None\<rparr>)"
      using assms(1) by (simp add: stuck_def)
    moreover have "s' = nextFn timedManager (s\<lparr>timers := dropTimer h (timers s), timerId := None\<rparr>)"
      using assms(2) Fire m FallbackPoll by (simp add: fallbackFired_def)
    ultimately show ?thesis using nextFn_stuck by simp
  next
    case (DeadlineOf i)
    have "stuck (reject i timeoutError
       (updTask i (\<lambda>t. t\<lparr>t_timerId := None\<rparr>) (s\<lparr>timers := dropTimer h (timers s)\<rparr>)))"
      using assms(1)
      by (auto simp: stuck_def prims list_all_length nth_upd)
    moreover have "s' = nextFn timedManager (reject i timeoutError
       (updTask i (\<lambda>t. t\<lparr>t_timerId := None\<rparr>) (s\<lparr>timers := dropTimer h (timers s)\<rparr>)))"
      using assms(2) Fire m DeadlineOf by (simp add: deadlineFired_def)
    ultimately show ?thesis using nextFn_stuck by simp
  qed
next
  case (Settle i out)
  then show ?thesis using assms by (auto simp: stuck_def list_all_length split: if_splits)
next
  case (Continue i)
  then show ?thesis using assms by (auto simp: stuck_def list_all_length split: if_splits)
qed

lemma stuck_exec: "stuck s \<Longrightarrow> exec timedManager evs s = Some s' \<Longrightarrow> stuck s'"
proof (induction evs arbitrary: s)
  case Nil
  then show ?case by simp
next
  case (Cons e evs)
  then obtain s1 where s1: "step timedManager e s = Some s1" and r: "exec timedManager evs s1 = Some s'"
    by (cases "step timedManager e s") simp_all
  show ?case using Cons.IH[OF stuck_step[OF Cons.prems(1) s1] r] .
qed

text \<open>
  C1. The claim wants one \<^verbatim>\<open>end()\<close> for every \<^verbatim>\<open>start()\<close> that returned true, also
  for a runner whose deadline fired while it was queued. The code does not call
  \<^verbatim>\<open>end()\<close> on that path: \<^verbatim>\<open>run\<close> returns at "timeout already fired", after the
  loop's \<^verbatim>\<open>start()\<close> has admitted it. With concurrency 1 and \<^verbatim>\<open>maxDelay\<close> 50, two
  tasks are submitted, the deadline of the second fires while the first runs, and the first
  settles. Then \<^verbatim>\<open>start()\<close> has returned true twice (for task 0, and for the abandoned
  runner of task 1), \<^verbatim>\<open>end()\<close> has been called once, only the factory of task 0 was
  called, nothing is queued, no timer is pending, no task is running, and
  \<^verbatim>\<open>activeCount\<close> is 1. Whatever happens afterwards, \<^verbatim>\<open>end()\<close> is never called
  again, \<^verbatim>\<open>activeCount\<close> stays 1 and no further factory is called.
\<close>

theorem abandoned_runner_keeps_slot:
  "exec timedManager [Submit, Submit, Fire 1, Settle 0 (Fulfilled 7), Continue 0] fresh \<noteq> None \<and>
   starts (trace leaked) = [True, False, False, True] \<and>
   count_list (trace leaked) QEnd = 1 \<and>
   shifts (trace leaked) = [0, 1] \<and> fnCalls (trace leaked) = [0] \<and>
   queue leaked = [] \<and> timers leaked = [] \<and>
   map t_phase (tasks leaked) = [Finished, NotStarted] \<and>
   qm_activeCount timedManager (qm leaked) = 1 \<and>
   (\<forall>evs s. exec timedManager evs leaked = Some s \<longrightarrow>
      count_list (trace s) QEnd = 1 \<and> fnCalls (trace s) = [0] \<and>
      qm_activeCount timedManager (qm s) = 1)"
proof -
  have "exec timedManager [Submit, Submit, Fire 1, Settle 0 (Fulfilled 7), Continue 0] fresh \<noteq> None \<and>
   starts (trace leaked) = [True, False, False, True] \<and>
   count_list (trace leaked) QEnd = 1 \<and>
   shifts (trace leaked) = [0, 1] \<and> fnCalls (trace leaked) = [0] \<and>
   queue leaked = [] \<and> timers leaked = [] \<and>
   map t_phase (tasks leaked) = [Finished, NotStarted] \<and>
   qm_activeCount timedManager (qm leaked) = 1"
    by code_simp
  moreover have "\<And>evs s. exec timedManager evs leaked = Some s \<Longrightarrow>
      count_list (trace s) QEnd = 1 \<and> fnCalls (trace s) = [0] \<and>
      qm_activeCount timedManager (qm s) = 1"
    using stuck_exec[OF stuck_leaked]
    by (fastforce simp: stuck_def timedManager_def concurrencyManager_def)
  ultimately show ?thesis by blast
qed

theorem abandoned_runner_keeps_slot_witness:
  "exec timedManager [Submit, Cleanup, Fire 2] leaked \<noteq> None \<and>
   count_list (trace (the (exec timedManager [Submit, Cleanup, Fire 2] leaked))) QEnd = 1 \<and>
   fnCalls (trace (the (exec timedManager [Submit, Cleanup, Fire 2] leaked))) = [0] \<and>
   qm_activeCount timedManager (qm (the (exec timedManager [Submit, Cleanup, Fire 2] leaked))) = 1"
proof -
  have "exec timedManager [Submit, Cleanup, Fire 2] leaked \<noteq> None" by code_simp
  then obtain s where e: "exec timedManager [Submit, Cleanup, Fire 2] leaked = Some s" by blast
  have "count_list (trace s) QEnd = 1 \<and> fnCalls (trace s) = [0] \<and>
      qm_activeCount timedManager (qm s) = 1"
    using abandoned_runner_keeps_slot e by blast
  then show ?thesis by (simp only: e option.sel option.distinct not_False_eq_True simp_thms)
qed

subsection \<open>C2: the loop takes runners from the head while it may\<close>

lemma shiftRun_shifts:
  assumes "queue s = i # rest"
  shows "\<exists>new. trace (shiftRun M s) = trace s @ new \<and> shifts new = [i] \<and> starts new = [] \<and>
           queue (shiftRun M s) = rest"
  using assms
proof (cases rule: shiftRun_cases[where M = M])
  case plain
  then show ?thesis by simp
next
  case fired
  then show ?thesis by simp
next
  case (armed h)
  then show ?thesis by simp
qed

lemma drain_drained: "\<exists>k new. drained s (drain M s) k new"
proof (induction rule: drain_rule[where M = M])
  case (stop s)
  then have "drained s s 0 []" by (auto simp: drained_def)
  then show ?case by blast
next
  case (fail s s1)
  have e: "trace s1 = trace s @ [QStart False]" "queue s1 = queue s" "isClosed s1 = isClosed s"
    using fail(3) by (auto simp: startQ_eq)
  have "drained s s1 0 [QStart False]" using fail(1,2) e by (simp add: drained_def)
  then show ?case by blast
next
  case (iter s s1)
  have e: "trace s1 = trace s @ [QStart True]" "queue s1 = queue s" "isClosed s1 = isClosed s"
    using iter(3) by (auto simp: startQ_eq)
  obtain i rest where q: "queue s = i # rest" using iter(2) by (cases "queue s") auto
  obtain n1 where n1: "trace (shiftRun M s1) = trace s1 @ n1" "shifts n1 = [i]" "starts n1 = []"
    "queue (shiftRun M s1) = rest"
    using shiftRun_shifts[of s1 i rest M] q e(2) by auto
  obtain k new where d: "drained (shiftRun M s1) (drain M (shiftRun M s1)) k new"
    using iter(4) by blast
  have "drained s (drain M (shiftRun M s1)) (Suc k) (QStart True # n1 @ new)"
    using d n1 e q iter(1) by (auto simp: drained_def)
  then show ?case by blast
qed

lemma subseq_distinct: "subseq xs ys \<Longrightarrow> distinct ys \<Longrightarrow> distinct xs"
  by (metis subseq_conv_nths distinct_nthsI)

text \<open>
  C2. In every state, the loop of \<^verbatim>\<open>next\<close> takes some number \<open>k\<close> of runners from the
  head of the queue, in queue order, calling each as it is taken; \<^verbatim>\<open>start()\<close> returned
  true exactly for these \<open>k\<close>; and the loop stops either with the limiter closed or the
  queue empty (without a further call of \<^verbatim>\<open>start()\<close>), or on the one call of
  \<^verbatim>\<open>start()\<close> that returned false. In every run, under every manager (so also
  under concurrency 1), the task factories are called in the order of submission: the
  list of the tasks whose factory was called is a sublist of the list of the submitted
  tasks, which is in increasing order of task number, and no factory is called twice.
\<close>

theorem drain_fifo:
  assumes "exec M evs (pRateLimit q) = Some s"
  shows "(\<exists>k new. k \<le> length (queue s0) \<and> trace (drain M s0) = trace s0 @ new \<and>
            queue (drain M s0) = drop k (queue s0) \<and> shifts new = take k (queue s0) \<and>
            (if isClosed s0 \<or> queue (drain M s0) = [] then starts new = replicate k True
             else starts new = replicate k True @ [False])) \<and>
         drain M s0 =
           (if \<not> isClosed s0 \<and> queue s0 \<noteq> [] then
              if fst (startQ M s0) then drain M (shiftRun M (snd (startQ M s0))) else snd (startQ M s0)
            else s0) \<and>
         subseq (fnCalls (trace s)) (pushes (trace s)) \<and>
         sorted_wrt (<) (pushes (trace s)) \<and> distinct (fnCalls (trace s))"
proof -
  have c: "consistent M s" using consistent_reachable[OF assms] .
  note p = consistent_parts[OF c]
  obtain k new where d: "drained s0 (drain M s0) k new" using drain_drained by blast
  have a: "\<exists>k new. k \<le> length (queue s0) \<and> trace (drain M s0) = trace s0 @ new \<and>
            queue (drain M s0) = drop k (queue s0) \<and> shifts new = take k (queue s0) \<and>
            (if isClosed s0 \<or> queue (drain M s0) = [] then starts new = replicate k True
             else starts new = replicate k True @ [False])"
    using d unfolding drained_def by blast
  have b: "drain M s0 =
           (if \<not> isClosed s0 \<and> queue s0 \<noteq> [] then
              if fst (startQ M s0) then drain M (shiftRun M (snd (startQ M s0))) else snd (startQ M s0)
            else s0)"
    by (subst drain.simps) (simp split: prod.split)
  have pq: "pushes (trace s) = shifts (trace s) @ queue s"
    and so: "sorted_wrt (<) (shifts (trace s) @ queue s)"
    using p(3) by (simp_all add: queueOk_def)
  have s1: "subseq (fnCalls (trace s)) (shifts (trace s))" using p(7) by (simp add: callsOk_def)
  then have s2: "subseq (fnCalls (trace s)) (pushes (trace s))"
    unfolding pq by (rule list_emb_prefix)
  have "distinct (pushes (trace s))" using so pq strict_sorted_iff by metis
  then have "distinct (fnCalls (trace s))" using s2 subseq_distinct by blast
  then show ?thesis using a b s2 so pq by simp
qed

theorem drain_fifo_witness:
  "pushes (trace threeServed) = [0, 1, 2] \<and> fnCalls (trace threeServed) = [0, 1, 2] \<and>
   subseq (fnCalls (trace threeServed)) (pushes (trace threeServed)) \<and>
   sorted_wrt (<) (pushes (trace threeServed)) \<and> distinct (fnCalls (trace threeServed)) \<and>
   queue (enqueued plainManager fresh) = [0] \<and> \<not> isClosed (enqueued plainManager fresh) \<and>
   (\<exists>k new. k \<le> length (queue (enqueued plainManager fresh)) \<and>
      trace (drain plainManager (enqueued plainManager fresh)) =
        trace (enqueued plainManager fresh) @ new \<and>
      queue (drain plainManager (enqueued plainManager fresh)) =
        drop k (queue (enqueued plainManager fresh)) \<and>
      shifts new = take k (queue (enqueued plainManager fresh)) \<and>
      (if isClosed (enqueued plainManager fresh) \<or>
          queue (drain plainManager (enqueued plainManager fresh)) = []
       then starts new = replicate k True else starts new = replicate k True @ [False]))"
proof -
  note d = drain_fifo[OF threeServed_reached, of "enqueued plainManager fresh"]
  have a: "pushes (trace threeServed) = [0, 1, 2] \<and> fnCalls (trace threeServed) = [0, 1, 2] \<and>
     queue (enqueued plainManager fresh) = [0] \<and> \<not> isClosed (enqueued plainManager fresh)"
    by code_simp
  have e: "\<exists>k new. k \<le> length (queue (enqueued plainManager fresh)) \<and>
      trace (drain plainManager (enqueued plainManager fresh)) =
        trace (enqueued plainManager fresh) @ new \<and>
      queue (drain plainManager (enqueued plainManager fresh)) =
        drop k (queue (enqueued plainManager fresh)) \<and>
      shifts new = take k (queue (enqueued plainManager fresh)) \<and>
      (if isClosed (enqueued plainManager fresh) \<or>
          queue (drain plainManager (enqueued plainManager fresh)) = []
       then starts new = replicate k True else starts new = replicate k True @ [False])"
    using d by (rule conjunct1)
  have f: "subseq (fnCalls (trace threeServed)) (pushes (trace threeServed))"
    "sorted_wrt (<) (pushes (trace threeServed))" "distinct (fnCalls (trace threeServed))"
    using d by simp_all
  show ?thesis using a e f by (intro conjI) simp_all
qed

subsection \<open>C3: a deadline that fires in the queue abandons the entry\<close>

lemma run_cancels_deadline:
  "truthy (qm_maxDelay M) \<Longrightarrow>
     (case t_timerId (tasks s0 ! j) of
        None \<Rightarrow> run M j s0 = s0
      | Some h \<Rightarrow> trace (run M j s0) = trace s0 @ [ClearTimeout h, FnCall j] \<and>
                  timers (run M j s0) = dropTimer h (timers s0))"
  by (simp add: run_def prims split: option.split)



subsection \<open>C4: a closed limiter rejects every call\<close>

text \<open>
  C4. In every state reached after a call of \<^verbatim>\<open>cleanup\<close>, whatever happened in
  between, the limiter is closed, and a call of \<^verbatim>\<open>limiter\<close> does nothing but create
  a promise rejected with
  \<^verbatim>\<open>AlreadyClosedError('Limiter has been closed and cannot be used')\<close>: the queue, the
  manager and the timers are as before, and the only action of the call is the rejection
  (no push, no \<^verbatim>\<open>start()\<close>, no \<^verbatim>\<open>next\<close>).
\<close>

theorem closed_limiter_rejects:
  assumes "exec M evs (cleanupFn M s0) = Some s"
  shows "isClosed s \<and>
         step M Submit s = Some (limiter M s) \<and>
         limiter M s =
           s\<lparr>tasks := tasks s @ [newTask\<lparr>t_promise := Rejected closedError\<rparr>],
             trace := trace s @ [Reject (length (tasks s)) closedError]\<rparr> \<and>
         t_promise (tasks (limiter M s) ! length (tasks s)) =
           Rejected (AlreadyClosedError ''Limiter has been closed and cannot be used'') \<and>
         queue (limiter M s) = queue s \<and> qm (limiter M s) = qm s \<and>
         timers (limiter M s) = timers s"
proof -
  have "isClosed (cleanupFn M s0)" by (simp add: cleanupFn_def)
  then have c: "isClosed s" using exec_isClosed[OF assms] by simp
  then show ?thesis by (simp add: limiter_closed closedError_def)
qed

theorem closed_limiter_rejects_witness:
  "exec timedManager [Settle 0 (Fulfilled 7), Continue 0] (cleanupFn timedManager twoSubmitted) \<noteq> None \<and>
   isClosed (the (exec timedManager [Settle 0 (Fulfilled 7), Continue 0]
     (cleanupFn timedManager twoSubmitted))) \<and>
   t_promise (tasks (limiter timedManager (the (exec timedManager [Settle 0 (Fulfilled 7), Continue 0]
     (cleanupFn timedManager twoSubmitted)))) ! 2) =
     Rejected (AlreadyClosedError ''Limiter has been closed and cannot be used'') \<and>
   queue (limiter timedManager (the (exec timedManager [Settle 0 (Fulfilled 7), Continue 0]
     (cleanupFn timedManager twoSubmitted)))) = [1]"
proof -
  have ne: "exec timedManager [Settle 0 (Fulfilled 7), Continue 0] (cleanupFn timedManager twoSubmitted) \<noteq> None \<and>
    length (tasks (the (exec timedManager [Settle 0 (Fulfilled 7), Continue 0]
       (cleanupFn timedManager twoSubmitted)))) = 2 \<and>
    queue (the (exec timedManager [Settle 0 (Fulfilled 7), Continue 0]
       (cleanupFn timedManager twoSubmitted))) = [1]"
    by code_simp
  then obtain s where
    e: "exec timedManager [Settle 0 (Fulfilled 7), Continue 0] (cleanupFn timedManager twoSubmitted) = Some s"
    by blast
  have l: "length (tasks s) = 2" and q: "queue s = [1]"
    using ne unfolding e option.sel by simp_all
  have "isClosed s \<and>
     t_promise (tasks (limiter timedManager s) ! length (tasks s)) =
       Rejected (AlreadyClosedError ''Limiter has been closed and cannot be used'') \<and>
     queue (limiter timedManager s) = queue s"
    using closed_limiter_rejects[OF e] by blast
  then show ?thesis
    by (simp only: e l q option.sel option.distinct not_False_eq_True simp_thms)
qed

subsection \<open>C5: \<^verbatim>\<open>cleanup\<close> closes the manager once\<close>




subsection \<open>C6: the handlers of a settled task\<close>



subsection \<open>C7: one fallback timer\<close>

lemma distinct_same_length:
  assumes "distinct xs" "\<forall>x\<in>set xs. x = a"
  shows "length xs \<le> 1"
proof -
  have "set xs \<subseteq> {a}" using assms(2) by auto
  then have "card (set xs) \<le> 1" by (metis card_mono finite.emptyI finite.insertI card_1_singleton_iff order_refl is_singletonI is_singleton_altdef)
  then show ?thesis using distinct_card[OF assms(1)] by simp
qed

lemma fallbackTimers_single:
  assumes "handlesOk s" "fallbackOk s"
  shows "length (fallbackTimers s) \<le> 1"
    and "(timerId s = None) = (fallbackTimers s = [])"
    and "timerId s = Some h \<Longrightarrow> fallbackTimers s = [(h, FallbackPoll)]"
proof -
  have d: "distinct (map fst (fallbackTimers s))"
    using assms(1) by (simp add: handlesOk_def fallbackTimers_def distinct_map_filter)
  have m: "\<And>t. t \<in> set (fallbackTimers s) \<Longrightarrow> timerId s = Some (fst t) \<and> snd t = FallbackPoll"
    using fallbackOk_pending[OF assms(2)] by (auto simp: fallbackTimers_def)
  show n: "(timerId s = None) = (fallbackTimers s = [])"
  proof
    assume "timerId s = None"
    then have "set (fallbackTimers s) = {}" using m by fastforce
    then show "fallbackTimers s = []" by simp
  next
    assume e: "fallbackTimers s = []"
    show "timerId s = None"
    proof (cases "timerId s")
      case (Some h)
      then have "(h, FallbackPoll) \<in> set (fallbackTimers s)"
        using fallbackOk_armed[OF assms(2)] by (simp add: fallbackTimers_def)
      then show ?thesis using e by simp
    qed simp
  qed
  show l: "length (fallbackTimers s) \<le> 1"
  proof (cases "timerId s")
    case None
    then show ?thesis using n by simp
  next
    case (Some h)
    then have "\<forall>x\<in>set (map fst (fallbackTimers s)). x = h" using m by auto
    then have "length (map fst (fallbackTimers s)) \<le> 1" using distinct_same_length[OF d] by blast
    then show ?thesis by simp
  qed
  assume t: "timerId s = Some h"
  then have "(h, FallbackPoll) \<in> set (fallbackTimers s)"
    using fallbackOk_armed[OF assms(2)] by (simp add: fallbackTimers_def)
  then show "fallbackTimers s = [(h, FallbackPoll)]"
    using l by (cases "fallbackTimers s") auto
qed

text \<open>
  C7. In every reachable state at most one fallback timer is pending, and the variable
  \<^verbatim>\<open>timerId\<close> holds its handle: it is \<^verbatim>\<open>null\<close> exactly when none is pending. A call
  of \<^verbatim>\<open>next\<close> arms the timer exactly when, after the loop, the queue is not empty,
  \<^verbatim>\<open>activeCount\<close> is 0 and \<^verbatim>\<open>timerId\<close> is \<^verbatim>\<open>null\<close>, and it then stores the new
  handle in \<^verbatim>\<open>timerId\<close>. When the fallback timer fires, its handle is the one in
  \<^verbatim>\<open>timerId\<close>; the callback first sets \<^verbatim>\<open>timerId\<close> to \<^verbatim>\<open>null\<close>, with no fallback
  timer pending at that moment, and then calls \<^verbatim>\<open>next\<close>.
\<close>

theorem fallback_timer_single:
  assumes "exec M evs (pRateLimit q) = Some s"
  shows "length (fallbackTimers s) \<le> 1 \<and>
         (timerId s = None) = (fallbackTimers s = []) \<and>
         (\<forall>h. timerId s = Some h \<longrightarrow> fallbackTimers s = [(h, FallbackPoll)]) \<and>
         (let s1 = drain M (emit Next s);
              arm = (queue s1 \<noteq> [] \<and> qm_activeCount M (qm s1) = 0 \<and> timerId s1 = None)
          in timers (nextFn M s) = (if arm then timers s1 @ [(nextHandle s1, FallbackPoll)] else timers s1) \<and>
             timerId (nextFn M s) = (if arm then Some (nextHandle s1) else timerId s1) \<and>
             trace (nextFn M s) =
               (if arm then trace s1 @ [SetTimeout (nextHandle s1) FallbackPoll 100] else trace s1)) \<and>
         (\<forall>h. map_of (timers s) h = Some FallbackPoll \<longrightarrow>
            timerId s = Some h \<and>
            fallbackTimers (s\<lparr>timers := dropTimer h (timers s), timerId := None\<rparr>) = [] \<and>
            step M (Fire h) s = Some (nextFn M (s\<lparr>timers := dropTimer h (timers s), timerId := None\<rparr>)))"
proof -
  have c: "consistent M s" using consistent_reachable[OF assms] .
  note p = consistent_parts[OF c]
  note f = fallbackTimers_single[OF p(1,2)]
  have "\<And>h. map_of (timers s) h = Some FallbackPoll \<Longrightarrow>
            timerId s = Some h \<and>
            fallbackTimers (s\<lparr>timers := dropTimer h (timers s), timerId := None\<rparr>) = []"
  proof -
    fix h assume m: "map_of (timers s) h = Some FallbackPoll"
    then have "(h, FallbackPoll) \<in> set (timers s)" by (rule map_of_SomeD)
    then have c': "consistent M (s\<lparr>timers := dropTimer h (timers s), timerId := None\<rparr>)"
      and t: "timerId s = Some h"
      using consistent_fallback_prefix[OF c] fallbackOk_pending[OF p(2)] by simp_all
    note p' = consistent_parts[OF c']
    show "timerId s = Some h \<and>
            fallbackTimers (s\<lparr>timers := dropTimer h (timers s), timerId := None\<rparr>) = []"
      using fallbackTimers_single(2)[OF p'(1,2)] t by simp
  qed
  then show ?thesis using f step_Fire_fallback[of s _ M] by (simp add: nextFn_def armFallback_eq Let_def)
qed

theorem fallback_timer_single_witness:
  "length (fallbackTimers closedArmed) \<le> 1 \<and> timerId closedArmed = Some 2 \<and>
   fallbackTimers closedArmed = [(2, FallbackPoll)] \<and>
   map_of (timers closedArmed) 2 = Some FallbackPoll \<and>
   step timedManager (Fire 2) closedArmed =
     Some (nextFn timedManager (closedArmed\<lparr>timers := dropTimer 2 (timers closedArmed), timerId := None\<rparr>))"
proof -
  have h: "timerId closedArmed = Some 2 \<and> map_of (timers closedArmed) 2 = Some FallbackPoll"
    by code_simp
  show ?thesis using fallback_timer_single[OF closedArmed_reached] h by blast
qed

subsection \<open>C8: a started task is never abandoned\<close>

text \<open>
  C8. With \<^verbatim>\<open>maxDelay\<close> set, \<^verbatim>\<open>run\<close> either returns at once (\<^verbatim>\<open>timerId\<close> is
  \<^verbatim>\<open>null\<close>) or clears the deadline timer and then calls the factory, in this order. In
  every reachable state, a task whose factory has been called has no deadline timer
  pending, so the deadline callback cannot run for it; \<^verbatim>\<open>reject\<close> was never called for
  it with the timeout error, and its promise is not rejected with the timeout error.
\<close>

theorem started_never_times_out:
  assumes "exec M evs (pRateLimit q) = Some s" and "i \<in> set (fnCalls (trace s))"
  shows "(\<forall>h. (h, DeadlineOf i) \<notin> set (timers s)) \<and>
         (\<forall>h. map_of (timers s) h \<noteq> Some (DeadlineOf i)) \<and>
         Reject i timeoutError \<notin> set (trace s) \<and>
         t_promise (tasks s ! i) \<noteq> Rejected timeoutError \<and>
         (\<forall>s0 j. truthy (qm_maxDelay M) \<longrightarrow>
            (case t_timerId (tasks s0 ! j) of
               None \<Rightarrow> run M j s0 = s0
             | Some h \<Rightarrow> trace (run M j s0) = trace s0 @ [ClearTimeout h, FnCall j] \<and>
                         timers (run M j s0) = dropTimer h (timers s0)))"
proof -
  have c: "consistent M s" using consistent_reachable[OF assms(1)] .
  note p = consistent_parts[OF c]
  have b: "i < length (tasks s)" and n: "t_phase (tasks s ! i) \<noteq> NotStarted"
    using p(7) assms(2) by (simp_all add: callsOk_def)
  have t: "t_promise (tasks s ! i) \<noteq> Rejected timeoutError"
    using timedOutOk_reachable[OF assms(1)] b n by (auto simp: timedOutOk_def)
  have d: "\<And>h. (h, DeadlineOf i) \<notin> set (timers s)"
  proof
    fix h assume "(h, DeadlineOf i) \<in> set (timers s)"
    then show False using deadline_pending(5)[OF c] n by simp
  qed
  then have d': "\<And>h. map_of (timers s) h \<noteq> Some (DeadlineOf i)"
    using map_of_SomeD by fastforce
  have r: "Reject i timeoutError \<notin> set (trace s)"
    using settlesOk_member[OF p(8), of i timeoutError] t by auto
  show ?thesis using t d d' r run_cancels_deadline[of M] by blast
qed

theorem started_never_times_out_witness:
  "0 \<in> set (fnCalls (trace twoSubmitted)) \<and>
   Reject 0 timeoutError \<notin> set (trace twoSubmitted) \<and>
   t_promise (tasks twoSubmitted ! 0) \<noteq> Rejected timeoutError \<and>
   (\<forall>h. (h, DeadlineOf 0) \<notin> set (timers twoSubmitted))"
proof -
  have h: "0 \<in> set (fnCalls (trace twoSubmitted))" by code_simp
  show ?thesis using started_never_times_out[OF twoSubmitted_reached h] h by blast
qed

subsection \<open>C9: closing leaves the queued tasks pending\<close>



subsection \<open>C10: the poll timer of a closed limiter\<close>

lemma polling_step:
  assumes "polling M s h"
  shows "\<exists>s'. step M (Fire h) s = Some s' \<and> polling M s' (nextHandle s) \<and>
           nextHandle s' = Suc (nextHandle s) \<and> queue s' = queue s \<and> qm s' = qm s \<and>
           timers s' = dropTimer h (timers s) @ [(nextHandle s, FallbackPoll)] \<and> nextHandle s \<noteq> h"
proof -
  have c: "consistent M s" and cl: "isClosed s" and q: "queue s \<noteq> []"
    and a: "qm_activeCount M (qm s) = 0" and t: "timerId s = Some h"
    using assms by (simp_all add: polling_def)
  note p = consistent_parts[OF c]
  have m: "(h, FallbackPoll) \<in> set (timers s)" using fallbackOk_armed[OF p(2) t] .
  then have mo: "map_of (timers s) h = Some FallbackPoll" using map_of_handle[OF p(1)] by simp
  have f: "h < nextHandle s" using p(1) m by (auto simp: handlesOk_def)
  let ?s0 = "s\<lparr>timers := dropTimer h (timers s), timerId := None\<rparr>"
  let ?s' = "nextFn M ?s0"
  have st: "step M (Fire h) s = Some ?s'" using step_Fire_fallback[OF mo] .
  have e: "?s' = ?s0\<lparr>trace := trace ?s0 @ [Next, SetTimeout (nextHandle ?s0) FallbackPoll 100],
      timers := timers ?s0 @ [(nextHandle ?s0, FallbackPoll)], nextHandle := Suc (nextHandle ?s0),
      timerId := Some (nextHandle ?s0)\<rparr>"
    using cl q a by (intro nextFn_closed_arm) simp_all
  have "consistent M ?s'" using consistent_step[OF c st] .
  then have "polling M ?s' (nextHandle s)" using cl q a by (simp add: polling_def e)
  moreover have "nextHandle ?s' = Suc (nextHandle s)" "queue ?s' = queue s" "qm ?s' = qm s"
    "timers ?s' = dropTimer h (timers s) @ [(nextHandle s, FallbackPoll)]"
    by (simp_all add: e)
  ultimately show ?thesis using st f by auto
qed

lemma polling_forever:
  "polling M s h \<Longrightarrow>
   \<exists>s'. exec M (map Fire (h # [nextHandle s ..< nextHandle s + n])) s = Some s' \<and>
        polling M s' (nextHandle s + n) \<and> queue s' = queue s"
proof (induction n arbitrary: s h)
  case 0
  then show ?case using polling_step[OF 0] by auto
next
  case (Suc n)
  obtain s1 where s1: "step M (Fire h) s = Some s1" "polling M s1 (nextHandle s)"
     "nextHandle s1 = Suc (nextHandle s)" "queue s1 = queue s"
    using polling_step[OF Suc.prems] by blast
  obtain s' where s': "exec M (map Fire (nextHandle s # [nextHandle s1 ..< nextHandle s1 + n])) s1 = Some s'"
     "polling M s' (nextHandle s1 + n)" "queue s' = queue s1"
    using Suc.IH[OF s1(2)] by blast
  have "[nextHandle s ..< nextHandle s + Suc n] = nextHandle s # [nextHandle s1 ..< nextHandle s1 + n]"
    using s1(3) by (simp add: upt_conv_Cons)
  then show ?case using s1 s' by simp
qed

text \<open>
  C10, as it is written, fails. The claim has every call of \<^verbatim>\<open>next\<close> on a closed limiter
  with a waiting queue and no active task arm a fresh fallback timer. The condition of
  \<^verbatim>\<open>next\<close> also asks for \<^verbatim>\<open>!timerId\<close>: with concurrency 1 and \<^verbatim>\<open>maxDelay\<close> 50,
  after two submissions, \<^verbatim>\<open>cleanup\<close> and the settlement of the first task, the
  limiter is closed, task 1 waits, \<^verbatim>\<open>activeCount\<close> is 0, and the poll timer (handle 2)
  is armed. A call of \<^verbatim>\<open>next\<close> there arms nothing; so does the call made by the
  deadline timer of task 1 when it fires: afterwards the only pending timer is still the
  one with handle 2.
\<close>

theorem poll_not_rearmed_counterexample:
  "exec timedManager [Submit, Submit, Cleanup, Settle 0 (Fulfilled 7), Continue 0] fresh \<noteq> None \<and>
   isClosed closedArmed \<and> queue closedArmed = [1] \<and>
   qm_activeCount timedManager (qm closedArmed) = 0 \<and>
   timers closedArmed = [(1, DeadlineOf 1), (2, FallbackPoll)] \<and>
   timers (nextFn timedManager closedArmed) = [(1, DeadlineOf 1), (2, FallbackPoll)] \<and>
   step timedManager (Fire 1) closedArmed \<noteq> None \<and>
   timers (the (step timedManager (Fire 1) closedArmed)) = [(2, FallbackPoll)]"
  by code_simp

text \<open>
  C10, amended. The arming condition does not read \<^verbatim>\<open>isClosed\<close>. In a reachable state
  where the limiter is closed, the queue is not empty and \<^verbatim>\<open>activeCount\<close> is 0: a call
  of \<^verbatim>\<open>next\<close> arms a fresh fallback timer if none is armed (\<^verbatim>\<open>timerId\<close> is
  \<^verbatim>\<open>null\<close>), and arms nothing if one is armed. When the armed timer fires, its callback
  arms a fresh one (a new handle) and leaves the limiter closed, the queue and the manager
  as they were; so the poll timer can fire any number of times in a row, each firing
  arming the next, and the closed limiter never comes to rest.
\<close>

theorem closed_poll_rearms:
  assumes "exec M evs (pRateLimit q) = Some s" and "isClosed s" and "queue s \<noteq> []"
    and "qm_activeCount M (qm s) = 0"
  shows "(timerId s = None \<longrightarrow>
            timers (nextFn M s) = timers s @ [(nextHandle s, FallbackPoll)] \<and>
            timerId (nextFn M s) = Some (nextHandle s)) \<and>
         (\<forall>h. timerId s = Some h \<longrightarrow>
            timers (nextFn M s) = timers s \<and>
            (\<exists>s'. step M (Fire h) s = Some s' \<and>
               timers s' = dropTimer h (timers s) @ [(nextHandle s, FallbackPoll)] \<and>
               nextHandle s \<noteq> h \<and> timerId s' = Some (nextHandle s) \<and>
               isClosed s' \<and> queue s' = queue s \<and> qm s' = qm s) \<and>
            (\<forall>n. \<exists>s'. exec M (map Fire (h # [nextHandle s ..< nextHandle s + n])) s = Some s' \<and>
               timerId s' = Some (nextHandle s + n) \<and> isClosed s' \<and> queue s' = queue s))"
proof (intro conjI impI allI)
  assume t: "timerId s = None"
  show "timers (nextFn M s) = timers s @ [(nextHandle s, FallbackPoll)]"
    and "timerId (nextFn M s) = Some (nextHandle s)"
    using nextFn_closed_arm[OF assms(2,3,4) t] by simp_all
next
  fix h assume t: "timerId s = Some h"
  have po: "polling M s h"
    using consistent_reachable[OF assms(1)] assms(2,3,4) t by (simp add: polling_def)
  show "timers (nextFn M s) = timers s"
    using assms(2) t by (simp add: nextFn_closed armFallback_eq emit_def)
  show "\<exists>s'. step M (Fire h) s = Some s' \<and>
               timers s' = dropTimer h (timers s) @ [(nextHandle s, FallbackPoll)] \<and>
               nextHandle s \<noteq> h \<and> timerId s' = Some (nextHandle s) \<and>
               isClosed s' \<and> queue s' = queue s \<and> qm s' = qm s"
    using polling_step[OF po] by (auto simp: polling_def)
  fix n
  show "\<exists>s'. exec M (map Fire (h # [nextHandle s ..< nextHandle s + n])) s = Some s' \<and>
               timerId s' = Some (nextHandle s + n) \<and> isClosed s' \<and> queue s' = queue s"
    using polling_forever[OF po, of n] by (auto simp: polling_def)
qed

theorem closed_poll_rearms_witness:
  "isClosed closedArmed \<and> queue closedArmed \<noteq> [] \<and>
   qm_activeCount timedManager (qm closedArmed) = 0 \<and>
   timerId closedArmed = Some 2 \<and> nextHandle closedArmed = 3 \<and>
   (\<exists>s'. exec timedManager (map Fire [2, 3, 4]) closedArmed = Some s' \<and>
      timerId s' = Some 5 \<and> isClosed s' \<and> queue s' = queue closedArmed)"
proof -
  have h: "isClosed closedArmed \<and> queue closedArmed \<noteq> [] \<and>
     qm_activeCount timedManager (qm closedArmed) = 0 \<and>
     timerId closedArmed = Some 2 \<and> nextHandle closedArmed = 3"
    by code_simp
  then have c: "isClosed closedArmed" and q: "queue closedArmed \<noteq> []"
    and a: "qm_activeCount timedManager (qm closedArmed) = 0"
    and t: "timerId closedArmed = Some 2" and n: "nextHandle closedArmed = 3"
    by simp_all
  have l: "(2::nat) # [3 ..< 3 + 2] = [2, 3, 4]" by code_simp
  have "\<exists>s'. exec timedManager (map Fire (2 # [nextHandle closedArmed ..< nextHandle closedArmed + 2]))
       closedArmed = Some s' \<and>
     timerId s' = Some (nextHandle closedArmed + 2) \<and> isClosed s' \<and> queue s' = queue closedArmed"
    using closed_poll_rearms[OF closedArmed_reached c q a] t by blast
  then show ?thesis using h unfolding n l by (simp only: numeral_plus_numeral semiring_norm) blast
qed

end
